theory Spec2Isabelle
  imports Main "HOL-Library.Sublist" "HOL-Library.AList"
begin

section \<open>Texts and characters\<close>

text \<open>
  A JavaScript string is modelled as a \<^typ>\<open>string\<close>, one \<^typ>\<open>char\<close> per UTF-16 code
  unit; the model therefore covers the texts whose code units are all below 256.
\<close>

abbreviation NL :: char where "NL \<equiv> CHR 0x0A"
abbreviation TAB :: char where "TAB \<equiv> CHR 0x09"
abbreviation SP :: char where "SP \<equiv> CHR 0x20"
abbreviation DQ :: char where "DQ \<equiv> CHR 0x22"
abbreviation SQ :: char where "SQ \<equiv> CHR 0x27"
abbreviation BS :: char where "BS \<equiv> CHR 0x5C"
abbreviation HASH :: char where "HASH \<equiv> CHR 0x23"

text \<open>
  The class \<^verbatim>\<open>\s\<close> of a regular expression, which is also what \<^verbatim>\<open>trim()\<close> removes:
  tab, line feed, vertical tab, form feed, carriage return, space and the no-break space
  (the other members lie above code unit 255).
\<close>

definition is_space :: "char \<Rightarrow> bool" where
  "is_space c = (c = TAB \<or> c = NL \<or> c = CHR 0x0B \<or> c = CHR 0x0C \<or> c = CHR 0x0D
     \<or> c = SP \<or> c = CHR 0xA0)"

text \<open>\<^verbatim>\<open>[ \t]\<close>: the horizontal blanks the stripper skips as indentation.\<close>

definition is_blank :: "char \<Rightarrow> bool" where
  "is_blank c = (c = SP \<or> c = TAB)"

definition trimStart :: "string \<Rightarrow> string" where
  "trimStart s = dropWhile is_space s"

definition trimEnd :: "string \<Rightarrow> string" where
  "trimEnd s = rev (dropWhile is_space (rev s))"

definition trim :: "string \<Rightarrow> string" where
  "trim s = trimEnd (trimStart s)"

text \<open>\<^verbatim>\<open>s.substring(a, b)\<close> for \<open>a \<le> b\<close>, the only way the code calls it.\<close>

definition substring :: "string \<Rightarrow> nat \<Rightarrow> nat \<Rightarrow> string" where
  "substring s a b = take (b - a) (drop a s)"

section \<open>The comment stripper \<^verbatim>\<open>removeCommentsFromD2\<close>\<close>

text \<open>\<^verbatim>\<open>while (i < code.length && code[i] !== "\n") i++\<close>\<close>

function skipToNewline :: "string \<Rightarrow> nat \<Rightarrow> nat" where
  "skipToNewline code i =
     (if i < length code \<and> code ! i \<noteq> NL then skipToNewline code (Suc i) else i)"
  by pat_completeness auto
termination
  by (relation "measure (\<lambda>(code, i). length code - i)") auto

declare skipToNewline.simps [simp del]

text \<open>\<^verbatim>\<open>while (i < code.length && (code[i] === " " || code[i] === "\t")) i++\<close>\<close>

function skipIndent :: "string \<Rightarrow> nat \<Rightarrow> nat" where
  "skipIndent code i =
     (if i < length code \<and> (code ! i = SP \<or> code ! i = TAB) then skipIndent code (Suc i) else i)"
  by pat_completeness auto
termination
  by (relation "measure (\<lambda>(code, i). length code - i)") auto

declare skipIndent.simps [simp del]

text \<open>
  The search for the closing delimiter: \<^verbatim>\<open>while (i <= code.length - 3)\<close>, leaving the loop
  at the first index that starts three double quotes. The delimiter was found iff the
  returned index still satisfies \<open>i + 3 \<le> length code\<close>.
\<close>

function findClose :: "string \<Rightarrow> nat \<Rightarrow> nat" where
  "findClose code i =
     (if i + 3 \<le> length code
      then (if code ! i = DQ \<and> code ! (i + 1) = DQ \<and> code ! (i + 2) = DQ then i
            else findClose code (Suc i))
      else i)"
  by pat_completeness auto
termination
  by (relation "measure (\<lambda>(code, i). length code - i)") auto

declare findClose.simps [simp del]

text \<open>
  \<^verbatim>\<open>prevNewlinePos\<close>: the search backwards from \<open>i - 1\<close> for a line feed; \<open>None\<close> is the
  source's \<open>-1\<close>.
\<close>

primrec prevNewlinePos :: "string \<Rightarrow> nat \<Rightarrow> nat option" where
  "prevNewlinePos code 0 = None"
| "prevNewlinePos code (Suc p) = (if code ! p = NL then Some p else prevNewlinePos code p)"

text \<open>
  \<^verbatim>\<open>startsAtLineStart\<close> and \<^verbatim>\<open>isLineComment\<close> are computed by the same statements: the
  marker is at index 0 or right after a line feed, or an earlier line feed exists and only
  white space lies between it and the marker. On the first line of the text a marker
  after leading white space is not at a line start.
\<close>

definition atLineStart :: "string \<Rightarrow> nat \<Rightarrow> bool" where
  "atLineStart code i =
     (if i = 0 then True
      else if code ! (i - 1) = NL then True
      else (case prevNewlinePos code i of
              None \<Rightarrow> False
            | Some p \<Rightarrow> trim (substring code (p + 1) i) = []))"

lemma skipToNewline_ge: "i \<le> skipToNewline code i"
  by (induction code i rule: skipToNewline.induct) (subst skipToNewline.simps, auto)

lemma skipToNewline_gt: "i < length code \<Longrightarrow> code ! i \<noteq> NL \<Longrightarrow> i < skipToNewline code i"
  using skipToNewline_ge [of "Suc i" code] by (subst skipToNewline.simps) auto

lemma skipIndent_ge: "i \<le> skipIndent code i"
  by (induction code i rule: skipIndent.induct) (subst skipIndent.simps, auto)

lemma findClose_ge: "i \<le> findClose code i"
  by (induction code i rule: findClose.induct) (subst findClose.simps, auto)

lemma measure_step: "i < length code \<Longrightarrow> i < j \<Longrightarrow> length code - j < length code - i"
  for code :: string
  by arith

lemma findClose_gt3: "i < findClose code (i + 3) + 3"
  using findClose_ge [of "i + 3" code] by arith

lemma findClose_gt4: "i < findClose code (i + 3) + 4"
  using findClose_ge [of "i + 3" code] by arith

lemma skipIndent_findClose_gt: "i < skipIndent code (findClose code (i + 3) + 4)"
  using skipIndent_ge [of "findClose code (i + 3) + 4" code] findClose_gt4 [of i code] by arith

lemma skipIndent_skipToNewline_gt: "i < skipIndent code (skipToNewline code i + 1)"
  using skipIndent_ge [of "skipToNewline code i + 1" code] skipToNewline_ge [of i code] by arith

lemma hash_skip_less:
  assumes "i < length code" and "code ! i = HASH"
  shows "length code - skipToNewline code i < length code - i"
    and "length code - Suc (skipToNewline code i) < length code - i"
    and "length code - skipIndent code (Suc (skipToNewline code i)) < length code - i"
proof -
  have "i < skipToNewline code i"
    using assms skipToNewline_gt [of i code] by simp
  moreover have "Suc (skipToNewline code i) \<le> skipIndent code (Suc (skipToNewline code i))"
    by (rule skipIndent_ge)
  ultimately show "length code - skipToNewline code i < length code - i"
    and "length code - Suc (skipToNewline code i) < length code - i"
    and "length code - skipIndent code (Suc (skipToNewline code i)) < length code - i"
    using assms(1) by arith+
qed

text \<open>
  The main loop. \<open>i\<close> is the read index, \<open>inS\<close> and \<open>inD\<close> are \<^verbatim>\<open>inSingleQuoteString\<close> and
  \<^verbatim>\<open>inDoubleQuoteString\<close>, \<open>result\<close> is the output so far. The branches are the source's,
  in its order.
\<close>

function scan :: "string \<Rightarrow> nat \<Rightarrow> bool \<Rightarrow> bool \<Rightarrow> string \<Rightarrow> string" where
  "scan code i inS inD result =
     (if \<not> i < length code then result
      else if code ! i = DQ \<and> \<not> inS
              \<and> \<not> (2 \<le> i \<and> code ! (i - 1) = DQ \<and> code ! (i - 2) = DQ)
              \<and> \<not> (i + 2 < length code \<and> code ! (i + 1) = DQ \<and> code ! (i + 2) = DQ)
      then (if 0 < i \<and> code ! (i - 1) = BS
            then scan code (i + 1) inS inD (result @ [code ! i])
            else scan code (i + 1) inS (\<not> inD) (result @ [code ! i]))
      else if code ! i = SQ \<and> \<not> inD
      then (if 0 < i \<and> code ! (i - 1) = BS
            then scan code (i + 1) inS inD (result @ [code ! i])
            else scan code (i + 1) (\<not> inS) inD (result @ [code ! i]))
      else if \<not> inS \<and> \<not> inD \<and> code ! i = DQ
              \<and> i + 1 < length code \<and> code ! (i + 1) = DQ
              \<and> i + 2 < length code \<and> code ! (i + 2) = DQ
      then (if findClose code (i + 3) + 3 \<le> length code
            then (if atLineStart code i
                  then (if findClose code (i + 3) + 3 < length code
                           \<and> code ! (findClose code (i + 3) + 3) = NL
                        then scan code (skipIndent code (findClose code (i + 3) + 4)) inS inD result
                        else scan code (findClose code (i + 3) + 3) inS inD result)
                  else (if findClose code (i + 3) + 3 < length code
                           \<and> code ! (findClose code (i + 3) + 3) = NL
                        then scan code (findClose code (i + 3) + 4) inS inD result
                        else scan code (findClose code (i + 3) + 3) inS inD result))
            else scan code (i + 3) inS inD (result @ [DQ, DQ]))
      else if \<not> inS \<and> \<not> inD \<and> code ! i = HASH
      then (if atLineStart code i
            then (if skipToNewline code i < length code \<and> code ! (skipToNewline code i) = NL
                  then scan code (skipIndent code (skipToNewline code i + 1)) inS inD result
                  else scan code (skipToNewline code i) inS inD result)
            else (if skipToNewline code i < length code \<and> code ! (skipToNewline code i) = NL
                  then scan code (skipToNewline code i + 1) inS inD (result @ [NL])
                  else scan code (skipToNewline code i) inS inD result))
      else scan code (i + 1) inS inD (result @ [code ! i]))"
  by pat_completeness auto
termination
  apply (relation "measure (\<lambda>(code, i, inS, inD, result). length code - i)")
  apply simp
  apply (simp_all add: findClose_gt3 findClose_gt4 skipIndent_findClose_gt measure_step hash_skip_less)
  done

declare scan.simps [simp del]

text \<open>
  The post-pass. \<^verbatim>\<open>result.replace(/\s+$/, "")\<close> is \<^const>\<open>trimEnd\<close>. The two global
  replacements scan from left to right; where the pattern matches, the replacement is
  emitted and the scan goes on after the match, elsewhere the character is copied.
\<close>

text \<open>
  \<^verbatim>\<open>replace(/[ \t]+(\n)/g, "$1")\<close>: a run of blanks matches only when the whole rest of
  the run is followed by a line feed.
\<close>

function stripLineTrail :: "string \<Rightarrow> string" where
  "stripLineTrail [] = []"
| "stripLineTrail (c # cs) =
     (if is_blank c \<and> dropWhile is_blank cs \<noteq> [] \<and> hd (dropWhile is_blank cs) = NL
      then NL # stripLineTrail (tl (dropWhile is_blank cs))
      else c # stripLineTrail cs)"
  by pat_completeness auto
termination
proof (relation "measure length", goal_cases)
  case (2 c cs)
  have "length (tl (dropWhile is_blank cs)) \<le> length cs"
    using length_dropWhile_le [of is_blank cs] by simp
  then show ?case by simp
qed simp_all

text \<open>The blanks that follow the last line feed of a white-space run.\<close>

definition afterLastNL :: "string \<Rightarrow> string" where
  "afterLastNL w = rev (takeWhile (\<lambda>x. x \<noteq> NL) (rev w))"

text \<open>
  \<^verbatim>\<open>replace(/\n\s*\n/g, "\n")\<close>: after a line feed the greedy \<^verbatim>\<open>\s*\<close> takes the whole
  white-space run and gives back as far as the run's last line feed; the pattern matches
  iff the run contains a line feed.
\<close>

function collapseBlankLines :: "string \<Rightarrow> string" where
  "collapseBlankLines [] = []"
| "collapseBlankLines (c # cs) =
     (if c = NL \<and> NL \<in> set (takeWhile is_space cs)
      then NL # collapseBlankLines (afterLastNL (takeWhile is_space cs) @ dropWhile is_space cs)
      else c # collapseBlankLines cs)"
  by pat_completeness auto
termination
proof (relation "measure length", goal_cases)
  case (2 c cs)
  have "length (afterLastNL (takeWhile is_space cs)) \<le> length (takeWhile is_space cs)"
    using length_takeWhile_le [of "\<lambda>x. x \<noteq> NL" "rev (takeWhile is_space cs)"]
    by (simp add: afterLastNL_def)
  moreover have "length (takeWhile is_space cs) + length (dropWhile is_space cs)
      = length (takeWhile is_space cs @ dropWhile is_space cs)"
    by (simp only: length_append)
  moreover have "length (takeWhile is_space cs @ dropWhile is_space cs) = length cs"
    by (simp only: takeWhile_dropWhile_id)
  ultimately show ?case by simp
qed simp_all

definition removeCommentsFromD2 :: "string \<Rightarrow> string" where
  "removeCommentsFromD2 code =
     collapseBlankLines (stripLineTrail (trimEnd (scan code 0 False False [])))"

section \<open>The helpers of \<^verbatim>\<open>d2-helper\<close>\<close>

text \<open>\<^verbatim>\<open>hay.indexOf(needle)\<close>; \<open>None\<close> is the source's \<open>-1\<close>.\<close>

fun indexOf :: "string \<Rightarrow> string \<Rightarrow> nat option" where
  "indexOf needle [] = (if needle = [] then Some 0 else None)"
| "indexOf needle (c # cs) =
     (if prefix needle (c # cs) then Some 0 else map_option Suc (indexOf needle cs))"

text \<open>
  \<^verbatim>\<open>findBlockBounds\<close>: \<open>braceCount\<close> is an integer and may go below zero; \<open>blockStart\<close> and
  \<open>blockEnd\<close> are \<open>None\<close> for the source's \<open>-1\<close>.
\<close>

function findBlockLoop :: "string \<Rightarrow> nat \<Rightarrow> int \<Rightarrow> nat option \<Rightarrow> nat option \<times> nat option" where
  "findBlockLoop code i braceCount blockStart =
     (if i < length code
      then (if code ! i = CHR ''{''
            then findBlockLoop code (i + 1) (braceCount + 1)
                   (if braceCount = 0 then Some (i + 1) else blockStart)
            else if code ! i = CHR ''}''
            then (if braceCount - 1 = 0 \<and> blockStart \<noteq> None then (blockStart, Some i)
                  else findBlockLoop code (i + 1) (braceCount - 1) blockStart)
            else findBlockLoop code (i + 1) braceCount blockStart)
      else (blockStart, None))"
  by pat_completeness auto
termination
  by (relation "measure (\<lambda>(code, i, braceCount, blockStart). length code - i)") auto

declare findBlockLoop.simps [simp del]

definition findBlockBounds :: "string \<Rightarrow> nat \<Rightarrow> nat option \<times> nat option" where
  "findBlockBounds code startIndex = findBlockLoop code startIndex 0 None"

definition getD2ConfigContent :: "string \<Rightarrow> string" where
  "getD2ConfigContent code =
     (case indexOf ''vars:'' code of
        None \<Rightarrow> []
      | Some varsStart \<Rightarrow>
          (case findBlockBounds code varsStart of
             (Some varsBlockStart, Some varsBlockEnd) \<Rightarrow>
               (let varsContent = substring code varsBlockStart varsBlockEnd in
                  (case indexOf ''d2-config:'' varsContent of
                     None \<Rightarrow> []
                   | Some d2ConfigStart \<Rightarrow>
                       (case findBlockBounds varsContent d2ConfigStart of
                          (Some d2ConfigBlockStart, Some d2ConfigBlockEnd) \<Rightarrow>
                            substring varsContent d2ConfigBlockStart d2ConfigBlockEnd
                        | _ \<Rightarrow> [])))
           | _ \<Rightarrow> []))"

text \<open>
  \<^verbatim>\<open>hasComposition\<close>: the test of \<^verbatim>\<open>/\b(layers|scenarios|steps)\s*:\s*\{/i\<close>.
  \<^verbatim>\<open>toUpperCase\<close> is taken on the ASCII letters. The program compares upper-cased text
  with ASCII names only (the keywords here, the enum members below), and no other code unit
  below 256 has an ASCII letter as its upper case, so the comparisons come out the same.
\<close>

definition toUpperChar :: "char \<Rightarrow> char" where
  "toUpperChar c =
     (if 97 \<le> (of_char c :: nat) \<and> (of_char c :: nat) \<le> 122
      then char_of ((of_char c :: nat) - 32) else c)"

definition toUpperCase :: "string \<Rightarrow> string" where
  "toUpperCase s = map toUpperChar s"

definition is_digit :: "char \<Rightarrow> bool" where
  "is_digit c = (48 \<le> (of_char c :: nat) \<and> (of_char c :: nat) \<le> 57)"

text \<open>The word characters of \<^verbatim>\<open>\b\<close>: letters, digits and the underscore.\<close>

definition is_word :: "char \<Rightarrow> bool" where
  "is_word c = (is_digit c \<or> c = CHR ''_''
     \<or> (65 \<le> (of_char c :: nat) \<and> (of_char c :: nat) \<le> 90)
     \<or> (97 \<le> (of_char c :: nat) \<and> (of_char c :: nat) \<le> 122))"

text \<open>\<^verbatim>\<open>\s*:\s*\{\<close> at the head of a text.\<close>

definition colonBrace :: "string \<Rightarrow> bool" where
  "colonBrace r =
     (case dropWhile is_space r of
        [] \<Rightarrow> False
      | c # r' \<Rightarrow> c = CHR '':'' \<and>
          (case dropWhile is_space r' of [] \<Rightarrow> False | d # _ \<Rightarrow> d = CHR ''{''))"

definition keywordHere :: "string \<Rightarrow> bool" where
  "keywordHere s =
     list_ex (\<lambda>kw. toUpperCase (take (length kw) s) = kw \<and> colonBrace (drop (length kw) s))
       [''LAYERS'', ''SCENARIOS'', ''STEPS'']"

text \<open>
  The search over the start positions; \<open>prevWord\<close> tells whether the character before
  the position is a word character (\<^verbatim>\<open>\b\<close> holds before a keyword iff it is not).
\<close>

primrec compositionFrom :: "bool \<Rightarrow> string \<Rightarrow> bool" where
  "compositionFrom prevWord [] = False"
| "compositionFrom prevWord (c # cs) =
     (if \<not> prevWord \<and> keywordHere (c # cs) then True else compositionFrom (is_word c) cs)"

definition hasComposition :: "string \<Rightarrow> bool" where
  "hasComposition code = compositionFrom False code"

section \<open>Configurations\<close>

datatype Layout = DAGRE | ELK | TALA

datatype FileType = SVG | BASE64_SVG | PNG | GIF

text \<open>
  A number of the program. \<open>Num n\<close> is the Number \<^verbatim>\<open>parseInt\<close> yields on the digits of the
  integer \<open>n\<close>, that is the double nearest to \<open>n\<close>; the model keeps \<open>n\<close> itself and does
  not round it. \<open>NumberOf s\<close> and \<open>ParseFloatOf s\<close> stand for the values of \<^verbatim>\<open>Number(s)\<close> and
  \<^verbatim>\<open>parseFloat(s)\<close>, which the program stores and never inspects.
\<close>

datatype jsnum = NaN | Num int | NumberOf string | ParseFloatOf string

text \<open>
  A property of an object: \<open>Missing\<close> when the object has no such property, \<open>Undef\<close> when
  it has the property with the value \<^verbatim>\<open>undefined\<close>, \<open>Val v\<close> otherwise. The two differ
  under the spread \<^verbatim>\<open>{...a, ...b}\<close>, which copies every own property of \<open>b\<close>, one whose value
  is \<^verbatim>\<open>undefined\<close> included.
\<close>

datatype 'a property = Missing | Undef | Val 'a

text \<open>\<^verbatim>\<open>x == null\<close> (and the negation of \<^verbatim>\<open>x != null\<close>).\<close>

fun isNullish :: "'a property \<Rightarrow> bool" where
  "isNullish Missing = True"
| "isNullish Undef = True"
| "isNullish (Val v) = False"

record D2Config =
  layoutEngine :: "string option"
  themeID :: "jsnum option"
  darkThemeID :: "jsnum option"
  sketch :: "bool option"
  center :: "bool option"
  pad :: "jsnum option"

record Config =
  onlyConvertMarkedImage :: "bool property"
  forceAppendix :: "bool property"
  layout :: "Layout property"
  theme :: "jsnum property"
  darkTheme :: "jsnum property"
  pad :: "jsnum property"
  animateInterval :: "jsnum property"
  timeout :: "jsnum property"
  sketch :: "bool property"
  center :: "bool property"
  scale :: "jsnum property"
  target :: "string property"
  stdoutFormat :: "FileType property"
  directory :: "string property"

text \<open>The object \<^verbatim>\<open>{}\<close>.\<close>

definition emptyConfig :: Config where
  "emptyConfig = \<lparr> onlyConvertMarkedImage = Missing, forceAppendix = Missing, layout = Missing,
     theme = Missing, darkTheme = Missing, pad = Missing, animateInterval = Missing,
     timeout = Missing, sketch = Missing, center = Missing, scale = Missing, target = Missing,
     stdoutFormat = Missing, directory = Missing \<rparr>"

definition emptyD2Config :: D2Config where
  "emptyD2Config = \<lparr> layoutEngine = None, themeID = None, darkThemeID = None,
     D2Config.sketch = None, D2Config.center = None, D2Config.pad = None \<rparr>"

text \<open>One property under \<^verbatim>\<open>{...a, ...b}\<close>, and the spread of two configurations.\<close>

fun spreadProperty :: "'a property \<Rightarrow> 'a property \<Rightarrow> 'a property" where
  "spreadProperty a Missing = a"
| "spreadProperty a Undef = Undef"
| "spreadProperty a (Val v) = Val v"

definition spread :: "Config \<Rightarrow> Config \<Rightarrow> Config" where
  "spread a b = \<lparr>
     onlyConvertMarkedImage = spreadProperty (onlyConvertMarkedImage a) (onlyConvertMarkedImage b),
     forceAppendix = spreadProperty (forceAppendix a) (forceAppendix b),
     layout = spreadProperty (layout a) (layout b),
     theme = spreadProperty (theme a) (theme b),
     darkTheme = spreadProperty (darkTheme a) (darkTheme b),
     pad = spreadProperty (pad a) (pad b),
     animateInterval = spreadProperty (animateInterval a) (animateInterval b),
     timeout = spreadProperty (timeout a) (timeout b),
     sketch = spreadProperty (sketch a) (sketch b),
     center = spreadProperty (center a) (center b),
     scale = spreadProperty (scale a) (scale b),
     target = spreadProperty (target a) (target b),
     stdoutFormat = spreadProperty (stdoutFormat a) (stdoutFormat b),
     directory = spreadProperty (directory a) (directory b) \<rparr>"

text \<open>
  The enum objects: \<^verbatim>\<open>Layout[key]\<close> and \<^verbatim>\<open>FileType[key]\<close> are defined for the member names
  only (the keys looked up are upper-cased, and no inherited property has such a name).
\<close>

definition lookupLayout :: "string \<Rightarrow> Layout option" where
  "lookupLayout key =
     (if key = ''DAGRE'' then Some DAGRE else if key = ''ELK'' then Some ELK
      else if key = ''TALA'' then Some TALA else None)"

definition lookupFileType :: "string \<Rightarrow> FileType option" where
  "lookupFileType key =
     (if key = ''SVG'' then Some SVG else if key = ''BASE64_SVG'' then Some BASE64_SVG
      else if key = ''PNG'' then Some PNG else if key = ''GIF'' then Some GIF else None)"

text \<open>An assignment \<^verbatim>\<open>config.f = Enum[key]\<close>: the property exists afterwards in any case.\<close>

definition assigned :: "'a option \<Rightarrow> 'a property" where
  "assigned r = (case r of None \<Rightarrow> Undef | Some v \<Rightarrow> Val v)"

text \<open>
  \<^verbatim>\<open>parseInt(s, 10)\<close>: leading white space is skipped, one sign is read, then the longest
  run of decimal digits; with no digit the result is \<open>NaN\<close>.
\<close>

definition digitsValue :: "string \<Rightarrow> nat" where
  "digitsValue ds = foldl (\<lambda>n c. 10 * n + ((of_char c :: nat) - 48)) 0 ds"

definition parseInt :: "string \<Rightarrow> jsnum" where
  "parseInt s =
     (let S = trimStart s;
          neg = (S \<noteq> [] \<and> hd S = CHR ''-'');
          S' = (if S \<noteq> [] \<and> (hd S = CHR ''+'' \<or> hd S = CHR ''-'') then tl S else S);
          Z = takeWhile is_digit S'
      in if Z = [] then NaN
         else Num ((if neg then - 1 else 1) * int (digitsValue Z)))"

text \<open>
  \<^verbatim>\<open>isNaN(Number(s))\<close> is false exactly for the numeric strings: after trimming, the empty
  string, a binary, octal or hexadecimal literal, or an optionally signed decimal literal
  (digits with an optional fraction and exponent, or \<^verbatim>\<open>Infinity\<close>).
\<close>

definition is_hexdigit :: "char \<Rightarrow> bool" where
  "is_hexdigit c = (is_digit c
     \<or> (65 \<le> (of_char c :: nat) \<and> (of_char c :: nat) \<le> 70)
     \<or> (97 \<le> (of_char c :: nat) \<and> (of_char c :: nat) \<le> 102))"

definition exponentPart :: "string \<Rightarrow> bool" where
  "exponentPart r =
     (case r of
        [] \<Rightarrow> True
      | e # r' \<Rightarrow> (e = CHR ''e'' \<or> e = CHR ''E'') \<and>
          (let ds = (if r' \<noteq> [] \<and> (hd r' = CHR ''+'' \<or> hd r' = CHR ''-'') then tl r' else r')
           in ds \<noteq> [] \<and> list_all is_digit ds))"

definition unsignedDecimal :: "string \<Rightarrow> bool" where
  "unsignedDecimal u =
     (if u = ''Infinity'' then True
      else (let ip = takeWhile is_digit u; r = dropWhile is_digit u in
        (case r of
           [] \<Rightarrow> ip \<noteq> []
         | c # r' \<Rightarrow>
             if c = CHR ''.''
             then (ip \<noteq> [] \<or> takeWhile is_digit r' \<noteq> []) \<and> exponentPart (dropWhile is_digit r')
             else ip \<noteq> [] \<and> exponentPart r)))"

definition nonDecimal :: "string \<Rightarrow> bool" where
  "nonDecimal t =
     (case t of
        z # x # ds \<Rightarrow> z = CHR ''0'' \<and> ds \<noteq> [] \<and>
          ((x = CHR ''x'' \<or> x = CHR ''X'') \<and> list_all is_hexdigit ds
           \<or> (x = CHR ''o'' \<or> x = CHR ''O'') \<and> list_all (\<lambda>c. c \<in> set ''01234567'') ds
           \<or> (x = CHR ''b'' \<or> x = CHR ''B'') \<and> list_all (\<lambda>c. c \<in> set ''01'') ds)
      | _ \<Rightarrow> False)"

definition numberIsNaN :: "string \<Rightarrow> bool" where
  "numberIsNaN s =
     (let t = trim s in
        \<not> (t = [] \<or> nonDecimal t
           \<or> unsignedDecimal (if hd t = CHR ''+'' \<or> hd t = CHR ''-'' then tl t else t)))"

section \<open>The directive header parser \<^verbatim>\<open>parseAndConvertConfig\<close>\<close>

text \<open>\<^verbatim>\<open>s.split(sep)\<close> for a separator of one character.\<close>

fun splitOn :: "char \<Rightarrow> string \<Rightarrow> string list" where
  "splitOn sep [] = [[]]"
| "splitOn sep (c # cs) =
     (if c = sep then [] # splitOn sep cs
      else (case splitOn sep cs of [] \<Rightarrow> [[c]] | x # xs \<Rightarrow> (c # x) # xs))"

text \<open>
  \<^verbatim>\<open>s.split(/\s+/)\<close>: the pieces between the maximal white-space runs, with an empty first
  piece when the text starts with white space and an empty last piece when it ends with it.
\<close>

function splitSpaces :: "string \<Rightarrow> string list" where
  "splitSpaces [] = [[]]"
| "splitSpaces (c # cs) =
     (if is_space c then [] # splitSpaces (dropWhile is_space cs)
      else (case splitSpaces cs of [] \<Rightarrow> [[c]] | x # xs \<Rightarrow> (c # x) # xs))"
  by pat_completeness auto
termination
proof (relation "measure length", goal_cases)
  case (2 c cs)
  then show ?case using length_dropWhile_le [of is_space cs] by simp
qed simp_all

text \<open>
  The regular expression \<^verbatim>\<open>/^"""\n([\s\S]*?)"""\s*\n?/\<close>: the text must start with three
  double quotes and a line feed; the lazy group ends at the first later occurrence of three
  double quotes. The result is the group and the length of the whole match.
\<close>

definition matchConfigRegex :: "string \<Rightarrow> (string \<times> nat) option" where
  "matchConfigRegex code =
     (if prefix [DQ, DQ, DQ, NL] code
      then (case indexOf [DQ, DQ, DQ] (drop 4 code) of
              None \<Rightarrow> None
            | Some k \<Rightarrow>
                (let after = drop (4 + k + 3) code;
                     ws = takeWhile is_space after;
                     rest = dropWhile is_space after;
                     nl = (if rest \<noteq> [] \<and> hd rest = NL then 1 else 0)
                 in Some (take k (drop 4 code), 4 + k + 3 + length ws + nl)))
      else None)"

text \<open>
  One turn of the loop over the header's lines, on the object \<^verbatim>\<open>userConfig\<close>: an association
  list in insertion order, as \<^verbatim>\<open>Object.entries\<close> lists it (an assignment to an existing key
  keeps the key's place).
\<close>

definition directiveStep :: "(string \<times> string) list \<Rightarrow> string \<Rightarrow> (string \<times> string) list" where
  "directiveStep userConfig line =
     (let trimmedLine = trim line in
        if trimmedLine = [] \<or> \<not> prefix ''--'' trimmedLine then userConfig
        else if CHR ''='' \<in> set trimmedLine
        then (case map trim (splitOn (CHR ''='') line) of
                key # val # _ \<Rightarrow> AList.update key val userConfig
              | _ \<Rightarrow> userConfig)
        else (case map trim (splitSpaces line) of
                key # val # _ \<Rightarrow> AList.update key (if val = [] then ''true'' else val) userConfig
              | [key] \<Rightarrow> AList.update key ''true'' userConfig
              | [] \<Rightarrow> userConfig))"

definition collectUserConfig :: "string \<Rightarrow> (string \<times> string) list" where
  "collectUserConfig group1 = foldl directiveStep [] (splitOn NL (trim group1))"

text \<open>The \<^verbatim>\<open>switch\<close> over one entry of \<^verbatim>\<open>userConfig\<close>.\<close>

definition applyDirective :: "Config \<Rightarrow> string \<times> string \<Rightarrow> Config" where
  "applyDirective config entry =
     (let key = fst entry; stringValue = snd entry in
        if key = ''--force-appendix'' then config\<lparr>forceAppendix := Val (stringValue = ''true'')\<rparr>
        else if key = ''--layout''
        then config\<lparr>layout := assigned (lookupLayout (toUpperCase stringValue))\<rparr>
        else if key = ''--theme''
        then (if \<not> numberIsNaN stringValue then config\<lparr>theme := Val (NumberOf stringValue)\<rparr>
              else config)
        else if key = ''--dark-theme''
        then (if \<not> numberIsNaN stringValue then config\<lparr>darkTheme := Val (NumberOf stringValue)\<rparr>
              else config)
        else if key = ''--pad'' then config\<lparr>pad := Val (parseInt stringValue)\<rparr>
        else if key = ''--animate-interval''
        then config\<lparr>animateInterval := Val (parseInt stringValue)\<rparr>
        else if key = ''--timeout'' then config\<lparr>timeout := Val (parseInt stringValue)\<rparr>
        else if key = ''--sketch'' then config\<lparr>sketch := Val (stringValue = ''true'')\<rparr>
        else if key = ''--center'' then config\<lparr>center := Val (stringValue = ''true'')\<rparr>
        else if key = ''--scale'' then config\<lparr>scale := Val (ParseFloatOf stringValue)\<rparr>
        else if key = ''--target'' then config\<lparr>target := Val stringValue\<rparr>
        else if key = ''--stdout-format''
        then config\<lparr>stdoutFormat := assigned (lookupFileType (toUpperCase stringValue))\<rparr>
        else if key = ''--directory'' then config\<lparr>directory := Val stringValue\<rparr>
        else config)"

definition convertUserConfig :: "(string \<times> string) list \<Rightarrow> Config" where
  "convertUserConfig userConfig = foldl applyDirective emptyConfig userConfig"

definition parseAndConvertConfig :: "string \<Rightarrow> Config \<times> string" where
  "parseAndConvertConfig code =
     (case matchConfigRegex code of
        None \<Rightarrow> (emptyConfig, code)
      | Some (group1, matchLength) \<Rightarrow>
          if group1 = [] then (emptyConfig, code)
          else (convertUserConfig (collectUserConfig group1), trim (drop matchLength code)))"

section \<open>The inline parser \<^verbatim>\<open>parseAndConvertD2Config\<close>\<close>

definition stripQuotes :: "string \<Rightarrow> string" where
  "stripQuotes str =
     (if length str < 2 then str
      else if (hd str = DQ \<and> last str = DQ) \<or> (hd str = SQ \<and> last str = SQ)
      then substring str 1 (length str - 1)
      else str)"

text \<open>One turn of the loop over the lines of the embedded block.\<close>

definition d2ConfigStep :: "D2Config \<Rightarrow> string \<Rightarrow> D2Config" where
  "d2ConfigStep d2Config line =
     (if line = [] then d2Config
      else (case splitOn (CHR '':'') line of
              [part0, part1] \<Rightarrow>
                (let key = trim part0; stringValue = trim part1 in
                   if key = ''layout-engine''
                   then d2Config\<lparr>layoutEngine := Some (stripQuotes stringValue)\<rparr>
                   else if key = ''theme-id'' then d2Config\<lparr>themeID := Some (parseInt stringValue)\<rparr>
                   else if key = ''dark-theme-id''
                   then d2Config\<lparr>darkThemeID := Some (parseInt stringValue)\<rparr>
                   else if key = ''sketch''
                   then d2Config\<lparr>D2Config.sketch := Some (stringValue = ''true'')\<rparr>
                   else if key = ''center''
                   then d2Config\<lparr>D2Config.center := Some (stringValue = ''true'')\<rparr>
                   else if key = ''pad'' then d2Config\<lparr>D2Config.pad := Some (parseInt stringValue)\<rparr>
                   else d2Config)
            | _ \<Rightarrow> d2Config))"

definition parseAndConvertD2Config :: "string \<Rightarrow> D2Config" where
  "parseAndConvertD2Config code =
     (let content = getD2ConfigContent code in
        if length content = 0 then emptyD2Config
        else foldl d2ConfigStep emptyD2Config (splitOn NL content))"

text \<open>
  \<^verbatim>\<open>convertD2ConfigToConfig\<close>: only the properties that are set go into the result, and the
  layout only when the enum has the key.
\<close>

definition ofOption :: "'a option \<Rightarrow> 'a property" where
  "ofOption r = (case r of None \<Rightarrow> Missing | Some v \<Rightarrow> Val v)"

definition convertD2ConfigToConfig :: "D2Config \<Rightarrow> Config" where
  "convertD2ConfigToConfig d2Config = emptyConfig\<lparr>
     layout := (case layoutEngine d2Config of
                  None \<Rightarrow> Missing
                | Some e \<Rightarrow> ofOption (lookupLayout (toUpperCase e))),
     theme := ofOption (themeID d2Config),
     darkTheme := ofOption (darkThemeID d2Config),
     sketch := ofOption (D2Config.sketch d2Config),
     center := ofOption (D2Config.center d2Config),
     pad := ofOption (D2Config.pad d2Config) \<rparr>"

section \<open>The merge \<^verbatim>\<open>parseConfig\<close>\<close>

definition parseConfig :: "string \<Rightarrow> Config \<Rightarrow> Config \<times> string" where
  "parseConfig content defaultConfig =
     (let diagramConfig = fst (parseAndConvertConfig content);
          code = snd (parseAndConvertConfig content);
          cleanedCode = removeCommentsFromD2 code;
          d2FileConfig = parseAndConvertD2Config cleanedCode;
          d2FileConvertedConfig = convertD2ConfigToConfig d2FileConfig;
          mergedConfig = spread (spread defaultConfig diagramConfig) d2FileConvertedConfig
      in (if isNullish (animateInterval mergedConfig) \<and> hasComposition code
          then mergedConfig\<lparr>animateInterval := Val (Num 1200)\<rparr>
          else mergedConfig,
          code))"

text \<open>
  The values \<^verbatim>\<open>parseConfig\<close> and \<^verbatim>\<open>parseAndConvertConfig\<close> hold in their local variables:
  the object \<^verbatim>\<open>userConfig\<close> of the directive header parser (empty when it returns early),
  the comment-free \<^verbatim>\<open>cleanedCode\<close> and the inline configuration \<^verbatim>\<open>d2FileConfig\<close> read
  from it.
\<close>

definition userConfigOf :: "string \<Rightarrow> (string \<times> string) list" where
  "userConfigOf content =
     (case matchConfigRegex content of
        None \<Rightarrow> []
      | Some (group1, matchLength) \<Rightarrow> if group1 = [] then [] else collectUserConfig group1)"

definition cleanedCodeOf :: "string \<Rightarrow> string" where
  "cleanedCodeOf content = removeCommentsFromD2 (snd (parseAndConvertConfig content))"

definition d2FileConfigOf :: "string \<Rightarrow> D2Config" where
  "d2FileConfigOf content = parseAndConvertD2Config (cleanedCodeOf content)"

text \<open>
  A line of the embedded block that the inline parser reads as a setting of \<open>key\<close>: it is
  not empty, it has exactly one colon, and the text before the colon trims to \<open>key\<close>. Its
  value is the trimmed text after the colon.
\<close>

definition settingOf :: "string \<Rightarrow> string \<Rightarrow> bool" where
  "settingOf key line =
     (line \<noteq> [] \<and> (case splitOn (CHR '':'') line of
                      [part0, part1] \<Rightarrow> trim part0 = key
                    | _ \<Rightarrow> False))"

definition settingValue :: "string \<Rightarrow> string" where
  "settingValue line =
     (case splitOn (CHR '':'') line of [part0, part1] \<Rightarrow> trim part1 | _ \<Rightarrow> [])"

section \<open>Notions for the properties of the stripper\<close>

text \<open>
  The single-quote state after a text without double quotes, started in state \<open>b\<close>; \<open>p\<close>
  tells whether a backslash stands before the text (a single quote after a backslash does
  not toggle). And the texts all of whose hashes lie inside single quotes.
\<close>

primrec quoteState :: "bool \<Rightarrow> bool \<Rightarrow> string \<Rightarrow> bool" where
  "quoteState b p [] = b"
| "quoteState b p (c # cs) = quoteState (if c = SQ \<and> \<not> p then \<not> b else b) (c = BS) cs"

primrec hashesQuoted :: "bool \<Rightarrow> bool \<Rightarrow> string \<Rightarrow> bool" where
  "hashesQuoted b p [] = True"
| "hashesQuoted b p (c # cs) =
     (if c = HASH \<and> \<not> b then False
      else hashesQuoted (if c = SQ \<and> \<not> p then \<not> b else b) (c = BS) cs)"

text \<open>Whether a backslash stands at the end of a text, or before it when it is empty.\<close>

definition endsBS :: "bool \<Rightarrow> string \<Rightarrow> bool" where
  "endsBS p s = (if s = [] then p else last s = BS)"

text \<open>
  The output so far and the text read so far end alike: with the same character, or each
  with white space or nothing.
\<close>

definition joined :: "string \<Rightarrow> nat \<Rightarrow> string \<Rightarrow> bool" where
  "joined code i res =
     ((0 < i \<and> res \<noteq> [] \<and> last res = code ! (i - 1))
      \<or> ((i = 0 \<or> is_space (code ! (i - 1))) \<and> (res = [] \<or> is_space (last res))))"

text \<open>
  The texts the three steps of the post-pass leave as they are: a text that does not end
  with white space, a text with no blank run before a line feed, a text with no line feed
  after a line feed and white space.
\<close>

definition endsProperly :: "string \<Rightarrow> bool" where
  "endsProperly s = (if s = [] then True else \<not> is_space (last s))"

primrec noLineTrail :: "string \<Rightarrow> bool" where
  "noLineTrail [] = True"
| "noLineTrail (c # cs) =
     (if is_blank c \<and> dropWhile is_blank cs \<noteq> [] \<and> hd (dropWhile is_blank cs) = NL then False
      else noLineTrail cs)"

primrec noBlankLine :: "string \<Rightarrow> bool" where
  "noBlankLine [] = True"
| "noBlankLine (c # cs) =
     (if c = NL \<and> NL \<in> set (takeWhile is_space cs) then False else noBlankLine cs)"

text \<open>Whether a line feed comes next, after white space other than line feeds.\<close>

definition lineFeedNext :: "string \<Rightarrow> bool" where
  "lineFeedNext s =
     (case dropWhile (\<lambda>x. is_space x \<and> x \<noteq> NL) s of [] \<Rightarrow> False | d # _ \<Rightarrow> d = NL)"

text \<open>The post-pass as a whole.\<close>

definition postPass :: "string \<Rightarrow> string" where
  "postPass s = collapseBlankLines (stripLineTrail (trimEnd s))"

text \<open>A text without its white space.\<close>

definition visible :: "string \<Rightarrow> string" where
  "visible s = filter (\<lambda>c. \<not> is_space c) s"

section \<open>The comment stripper on concrete texts\<close>

text \<open>
  C4. The text is
  \<^verbatim>\<open>"""\n# inside block comment\nfoo\n"""\na: b # trailing\n\<close>.
  The scan loop deletes the block comment with its line and the inline comment up to the
  line feed, which it keeps: its result is \<^verbatim>\<open>a: b \n\<close>. The post-pass then removes all
  trailing white space, the final line feed included, so the stripper returns \<^verbatim>\<open>a: b\<close>
  with no line feed after it.
\<close>

theorem C4_stripper_output:
  "scan ([DQ, DQ, DQ, NL] @ ''# inside block comment'' @ [NL] @ ''foo'' @ [NL, DQ, DQ, DQ, NL]
         @ ''a: b # trailing'' @ [NL]) 0 False False [] = ''a: b '' @ [NL]
   \<and> removeCommentsFromD2 ([DQ, DQ, DQ, NL] @ ''# inside block comment'' @ [NL] @ ''foo''
         @ [NL, DQ, DQ, DQ, NL] @ ''a: b # trailing'' @ [NL]) = ''a: b''"
  by code_simp

text \<open>
  C4, as stated: the result is not \<^verbatim>\<open>a: b\<close> followed by one line feed.
\<close>

theorem C4_counterexample:
  "removeCommentsFromD2 ([DQ, DQ, DQ, NL] @ ''# inside block comment'' @ [NL] @ ''foo''
         @ [NL, DQ, DQ, DQ, NL] @ ''a: b # trailing'' @ [NL]) \<noteq> ''a: b'' @ [NL]"
  by code_simp

text \<open>
  C5. On the text \<^verbatim>\<open>"""abc\<close>, whose opening delimiter has no closing one, the stripper
  resumes after the three double quotes but puts only two of them into the output: it
  returns \<^verbatim>\<open>""abc\<close>.
\<close>

theorem C5_unterminated_opener:
  "removeCommentsFromD2 ([DQ, DQ, DQ] @ ''abc'') = [DQ, DQ] @ ''abc''"
  by code_simp

text \<open>
  C6. The text \<^verbatim>\<open>x: "a # b"\<close> is returned unchanged. On \<^verbatim>\<open>x: "a """ # b"\<close>, where the three
  double quotes and the hash lie inside the double-quoted string, the middle quote of the
  three switches the string state off, the hash starts a comment, and the stripper returns
  \<^verbatim>\<open>x: "a """\<close>.
\<close>

theorem C6_hash_after_quoted_triple:
  "removeCommentsFromD2 (''x: '' @ [DQ] @ ''a # b'' @ [DQ]) = ''x: '' @ [DQ] @ ''a # b'' @ [DQ]
   \<and> removeCommentsFromD2 (''x: '' @ [DQ] @ ''a '' @ [DQ, DQ, DQ] @ '' # b'' @ [DQ])
       = ''x: '' @ [DQ] @ ''a '' @ [DQ, DQ, DQ]"
  by code_simp

section \<open>The merge on concrete blocks\<close>

text \<open>
  C2. The block is the one line \<^verbatim>\<open># layers: {\<close>, the default configuration is empty. The
  cleaned code is empty and has no composition keyword, but the merge tests the code with
  its comments and sets \<open>animateInterval\<close> to 1200.
\<close>

theorem C2_keyword_in_comment:
  "removeCommentsFromD2 (snd (parseAndConvertConfig ''# layers: {'')) = []
   \<and> hasComposition (removeCommentsFromD2 (snd (parseAndConvertConfig ''# layers: {''))) = False
   \<and> animateInterval (fst (parseConfig ''# layers: {'' emptyConfig)) = Val (Num 1200)"
  by code_simp

text \<open>
  C1. The block is \<^verbatim>\<open>"""\n--layout=foo\n--stdout-format=bar\n"""\nshape\<close>, the default
  configuration sets \<open>layout\<close> to \<open>ELK\<close> and \<open>stdoutFormat\<close> to \<open>PNG\<close>. The directive
  configuration has both properties with the value \<^verbatim>\<open>undefined\<close>, and the merged
  configuration has them with that value too: the defaults are lost.
\<close>

theorem C1_unmatched_enum_directive:
  "layout (fst (parseAndConvertConfig ([DQ, DQ, DQ, NL] @ ''--layout=foo'' @ [NL]
       @ ''--stdout-format=bar'' @ [NL, DQ, DQ, DQ, NL] @ ''shape''))) = Undef
   \<and> stdoutFormat (fst (parseAndConvertConfig ([DQ, DQ, DQ, NL] @ ''--layout=foo'' @ [NL]
       @ ''--stdout-format=bar'' @ [NL, DQ, DQ, DQ, NL] @ ''shape''))) = Undef
   \<and> layout (fst (parseConfig ([DQ, DQ, DQ, NL] @ ''--layout=foo'' @ [NL]
       @ ''--stdout-format=bar'' @ [NL, DQ, DQ, DQ, NL] @ ''shape'')
       (emptyConfig\<lparr>layout := Val ELK, stdoutFormat := Val PNG\<rparr>))) = Undef
   \<and> stdoutFormat (fst (parseConfig ([DQ, DQ, DQ, NL] @ ''--layout=foo'' @ [NL]
       @ ''--stdout-format=bar'' @ [NL, DQ, DQ, DQ, NL] @ ''shape'')
       (emptyConfig\<lparr>layout := Val ELK, stdoutFormat := Val PNG\<rparr>))) = Undef"
  by code_simp

section \<open>The directive header\<close>

lemma indexOf_None_iff: "indexOf n h = None \<longleftrightarrow> \<not> sublist n h"
  by (induction h) (auto simp: sublist_Cons_right)

lemma triple_prefix_window:
  "prefix [DQ, DQ, DQ] (c # xs @ [DQ, DQ]) = prefix [DQ, DQ, DQ] (c # xs @ [DQ, DQ, DQ] @ rest)"
proof (cases xs)
  case Nil
  then show ?thesis by simp
next
  case (Cons x ys)
  then show ?thesis by (cases ys) simp_all
qed

text \<open>
  The index \<^const>\<open>indexOf\<close> finds for three double quotes is where they first occur: no
  occurrence starts before it.
\<close>

lemma indexOf_triple_first:
  "\<not> sublist [DQ, DQ, DQ] (xs @ [DQ, DQ])
   \<Longrightarrow> indexOf [DQ, DQ, DQ] (xs @ [DQ, DQ, DQ] @ rest) = Some (length xs)"
proof (induction xs)
  case Nil
  then show ?case by simp
next
  case (Cons c xs)
  from Cons.prems have np: "\<not> prefix [DQ, DQ, DQ] (c # xs @ [DQ, DQ])"
    and ns: "\<not> sublist [DQ, DQ, DQ] (xs @ [DQ, DQ])"
    by (simp_all add: sublist_Cons_right)
  from np have "\<not> prefix [DQ, DQ, DQ] (c # xs @ [DQ, DQ, DQ] @ rest)"
    unfolding triple_prefix_window [of c xs rest, symmetric] .
  then have "indexOf [DQ, DQ, DQ] (c # xs @ [DQ, DQ, DQ] @ rest)
      = map_option Suc (indexOf [DQ, DQ, DQ] (xs @ [DQ, DQ, DQ] @ rest))"
    by (simp only: indexOf.simps if_False)
  with Cons.IH [OF ns] show ?case by simp
qed

lemma indexOf_triple_split:
  "indexOf [DQ, DQ, DQ] h = Some k
   \<Longrightarrow> \<exists>rest. h = take k h @ [DQ, DQ, DQ] @ rest \<and> \<not> sublist [DQ, DQ, DQ] (take k h @ [DQ, DQ])"
proof (induction h arbitrary: k)
  case Nil
  then show ?case by simp
next
  case (Cons c cs)
  show ?case
  proof (cases "prefix [DQ, DQ, DQ] (c # cs)")
    case True
    then have "indexOf [DQ, DQ, DQ] (c # cs) = Some 0"
      by (simp only: indexOf.simps if_True)
    then have k: "k = 0" using Cons.prems by (simp only: option.inject)
    from True obtain rest where "c # cs = [DQ, DQ, DQ] @ rest"
      unfolding prefix_def by blast
    moreover have "\<not> sublist [DQ, DQ, DQ] [DQ, DQ]"
      by (simp add: sublist_Cons_right)
    ultimately show ?thesis unfolding k by auto
  next
    case False
    then have e: "indexOf [DQ, DQ, DQ] (c # cs) = map_option Suc (indexOf [DQ, DQ, DQ] cs)"
      by (simp only: indexOf.simps if_False)
    have "map_option Suc (indexOf [DQ, DQ, DQ] cs) = Some k"
      using Cons.prems unfolding e .
    then obtain k' where k: "k = Suc k'" and ix: "indexOf [DQ, DQ, DQ] cs = Some k'"
      by auto
    from Cons.IH [OF ix] obtain rest where
      cs: "cs = take k' cs @ [DQ, DQ, DQ] @ rest"
      and ns: "\<not> sublist [DQ, DQ, DQ] (take k' cs @ [DQ, DQ])"
      by blast
    from False have "\<not> prefix [DQ, DQ, DQ] (c # take k' cs @ [DQ, DQ, DQ] @ rest)"
      unfolding cs [symmetric] .
    then have "\<not> prefix [DQ, DQ, DQ] (c # take k' cs @ [DQ, DQ])"
      unfolding triple_prefix_window [of c "take k' cs" rest, symmetric] .
    with ns have "\<not> sublist [DQ, DQ, DQ] (c # take k' cs @ [DQ, DQ])"
      unfolding sublist_Cons_right [of _ c] by blast
    moreover have "take k (c # cs) @ [DQ, DQ] = c # take k' cs @ [DQ, DQ]"
      by (simp only: k take_Suc_Cons append_Cons)
    ultimately have "\<not> sublist [DQ, DQ, DQ] (take k (c # cs) @ [DQ, DQ])"
      by (simp only: not_False_eq_True)
    moreover from cs have "c # cs = take k (c # cs) @ [DQ, DQ, DQ] @ rest"
      by (simp add: k)
    ultimately show ?thesis by blast
  qed
qed

lemma is_space_NL: "is_space NL"
  by (simp add: is_space_def)

lemma trim_dropWhile: "trim (dropWhile is_space s) = trim s"
  by (simp add: trim_def trimStart_def)

lemma optional_newline:
  "(if dropWhile is_space xs \<noteq> [] \<and> hd (dropWhile is_space xs) = NL then (1::nat) else 0) = 0"
proof -
  have "\<not> (dropWhile is_space xs \<noteq> [] \<and> hd (dropWhile is_space xs) = NL)"
  proof (rule notI, elim conjE)
    assume a: "dropWhile is_space xs \<noteq> []" and b: "hd (dropWhile is_space xs) = NL"
    from hd_dropWhile [OF a] b is_space_NL show False by simp
  qed
  then show ?thesis by (rule if_not_P)
qed

lemma matchConfigRegex_Some:
  assumes "prefix [DQ, DQ, DQ, NL] code" and "indexOf [DQ, DQ, DQ] (drop 4 code) = Some k"
  shows "matchConfigRegex code
    = Some (take k (drop 4 code),
        4 + k + 3 + length (takeWhile is_space (drop (4 + k + 3) code)))"
  unfolding matchConfigRegex_def
  by (simp only: assms if_True option.case Let_def optional_newline add_0_right)

text \<open>The match of the regular expression on a text with a header.\<close>

lemma matchConfigRegex_header:
  assumes "\<not> sublist [DQ, DQ, DQ] (body @ [DQ, DQ])"
  shows "\<exists>n. matchConfigRegex ([DQ, DQ, DQ, NL] @ body @ [DQ, DQ, DQ] @ rest) = Some (body, n)
           \<and> trim (drop n ([DQ, DQ, DQ, NL] @ body @ [DQ, DQ, DQ] @ rest)) = trim rest"
proof -
  let ?code = "[DQ, DQ, DQ, NL] @ body @ [DQ, DQ, DQ] @ rest"
  have ix: "indexOf [DQ, DQ, DQ] (drop 4 ?code) = Some (length body)"
    using indexOf_triple_first [OF assms, of rest] by simp
  have d4: "drop 4 ?code = body @ [DQ, DQ, DQ] @ rest" by simp
  have db: "drop (length body) (body @ [DQ, DQ, DQ] @ rest) = [DQ, DQ, DQ] @ rest" by simp
  have "drop (4 + length body + 3) ?code = drop 3 (drop (length body) (drop 4 ?code))"
    by (simp only: drop_drop ac_simps)
  also have "\<dots> = rest" unfolding d4 db by simp
  finally have after: "drop (4 + length body + 3) ?code = rest" .
  have "drop (4 + length body + 3 + length (takeWhile is_space rest)) ?code
      = drop (length (takeWhile is_space rest)) (drop (4 + length body + 3) ?code)"
    by (simp only: drop_drop ac_simps)
  also have "\<dots> = drop (length (takeWhile is_space rest)) rest"
    unfolding after ..
  also have "\<dots> = dropWhile is_space rest"
    by (simp add: dropWhile_eq_drop)
  finally have dr: "drop (4 + length body + 3 + length (takeWhile is_space rest)) ?code
      = dropWhile is_space rest" .
  have "prefix [DQ, DQ, DQ, NL] ?code" by simp
  from matchConfigRegex_Some [OF this ix]
  have "matchConfigRegex ?code
      = Some (body, 4 + length body + 3 + length (takeWhile is_space rest))"
    unfolding after d4 by simp
  moreover have "trim (drop (4 + length body + 3 + length (takeWhile is_space rest)) ?code)
      = trim rest"
    unfolding dr by (rule trim_dropWhile)
  ultimately show ?thesis by blast
qed

text \<open>The two ways the directive header parser goes.\<close>

lemma parseAndConvertConfig_cases:
  "if prefix [DQ, DQ, DQ, NL] code \<and> sublist [DQ, DQ, DQ] (drop 4 code)
      \<and> \<not> prefix [DQ, DQ, DQ, NL, DQ, DQ, DQ] code
   then \<exists>body rest. code = [DQ, DQ, DQ, NL] @ body @ [DQ, DQ, DQ] @ rest \<and> body \<noteq> []
          \<and> \<not> sublist [DQ, DQ, DQ] (body @ [DQ, DQ])
          \<and> parseAndConvertConfig code = (convertUserConfig (collectUserConfig body), trim rest)
   else parseAndConvertConfig code = (emptyConfig, code)"
proof -
  let ?cond = "prefix [DQ, DQ, DQ, NL] code \<and> sublist [DQ, DQ, DQ] (drop 4 code)
      \<and> \<not> prefix [DQ, DQ, DQ, NL, DQ, DQ, DQ] code"
  show ?thesis
  proof (cases "prefix [DQ, DQ, DQ, NL] code")
    case False
    then have "matchConfigRegex code = None"
      by (simp only: matchConfigRegex_def if_False)
    then have res: "parseAndConvertConfig code = (emptyConfig, code)"
      by (simp add: parseAndConvertConfig_def)
    from False have "\<not> ?cond" by blast
    then show ?thesis unfolding if_not_P [OF \<open>\<not> ?cond\<close>] using res by blast
  next
    case pre: True
    then obtain tl where code: "code = [DQ, DQ, DQ, NL] @ tl"
      unfolding prefix_def by blast
    have d4: "drop 4 code = tl"
      unfolding code by simp
    show ?thesis
    proof (cases "indexOf [DQ, DQ, DQ] tl")
      case None
      then have "\<not> sublist [DQ, DQ, DQ] (drop 4 code)"
        unfolding d4 by (rule indexOf_None_iff [THEN iffD1])
      then have nc: "\<not> ?cond" by blast
      from None pre have "matchConfigRegex code = None"
        by (simp add: matchConfigRegex_def d4)
      then have "parseAndConvertConfig code = (emptyConfig, code)"
        by (simp add: parseAndConvertConfig_def)
      then show ?thesis unfolding if_not_P [OF nc] .
    next
      case (Some k)
      from indexOf_triple_split [OF Some] obtain rest where
        tl: "tl = take k tl @ [DQ, DQ, DQ] @ rest"
        and ns: "\<not> sublist [DQ, DQ, DQ] (take k tl @ [DQ, DQ])"
        by blast
      have "sublist [DQ, DQ, DQ] tl"
      proof (rule ccontr)
        assume "\<not> sublist [DQ, DQ, DQ] tl"
        then have "indexOf [DQ, DQ, DQ] tl = None"
          by (rule indexOf_None_iff [THEN iffD2])
        with Some show False by simp
      qed
      then have sub: "sublist [DQ, DQ, DQ] (drop 4 code)"
        unfolding d4 .
      show ?thesis
      proof (cases "take k tl = []")
        case True
        from tl have "tl = [DQ, DQ, DQ] @ rest"
          unfolding True by simp
        then have "code = [DQ, DQ, DQ, NL, DQ, DQ, DQ] @ rest"
          unfolding code by simp
        then have "prefix [DQ, DQ, DQ, NL, DQ, DQ, DQ] code"
          by (rule prefixI)
        then have nc: "\<not> ?cond" by blast
        from Some have "indexOf [DQ, DQ, DQ] (drop 4 code) = Some k"
          unfolding d4 .
        from matchConfigRegex_Some [OF pre this]
        obtain n where "matchConfigRegex code = Some (take k tl, n)"
          unfolding d4 by blast
        with True have "parseAndConvertConfig code = (emptyConfig, code)"
          by (simp add: parseAndConvertConfig_def)
        then show ?thesis unfolding if_not_P [OF nc] .
      next
        case False
        let ?body = "take k tl"
        have code': "code = [DQ, DQ, DQ, NL] @ ?body @ [DQ, DQ, DQ] @ rest"
          using arg_cong [OF tl, of "\<lambda>x. [DQ, DQ, DQ, NL] @ x"] unfolding code [symmetric] .
        from matchConfigRegex_header [OF ns, of rest] obtain n where
          m: "matchConfigRegex code = Some (?body, n)" and t: "trim (drop n code) = trim rest"
          unfolding code' [symmetric] by blast
        have res: "parseAndConvertConfig code
            = (convertUserConfig (collectUserConfig ?body), trim rest)"
          using m t False by (simp add: parseAndConvertConfig_def)
        have np: "\<not> prefix [DQ, DQ, DQ, NL, DQ, DQ, DQ] code"
        proof
          assume "prefix [DQ, DQ, DQ, NL, DQ, DQ, DQ] code"
          then have "prefix [DQ, DQ, DQ] tl" unfolding code by simp
          then have "indexOf [DQ, DQ, DQ] tl = Some 0" by (cases tl) simp_all
          with Some have "k = 0" by simp
          with False show False by simp
        qed
        from pre sub np have c: ?cond by blast
        from code' False ns res
        have "\<exists>body rest. code = [DQ, DQ, DQ, NL] @ body @ [DQ, DQ, DQ] @ rest \<and> body \<noteq> []
            \<and> \<not> sublist [DQ, DQ, DQ] (body @ [DQ, DQ])
            \<and> parseAndConvertConfig code = (convertUserConfig (collectUserConfig body), trim rest)"
          by blast
        then show ?thesis unfolding if_P [OF c] .
      qed
    qed
  qed
qed

text \<open>
  C8, as amended. A header is recognised exactly when the block begins with three double
  quotes and a line feed, three double quotes occur again later, and they do not follow
  the line feed at once (the text between the delimiters is not empty). Then the block is
  the opening delimiter, a body free of the closing delimiter, the closing delimiter and a
  rest; the directives are read from the body and the returned code is the trimmed rest.
  In every other case the result is the empty configuration and the block unchanged.
\<close>

theorem C8_header_recognition:
  "if prefix [DQ, DQ, DQ, NL] code \<and> sublist [DQ, DQ, DQ] (drop 4 code)
      \<and> \<not> prefix [DQ, DQ, DQ, NL, DQ, DQ, DQ] code
   then \<exists>body rest. code = [DQ, DQ, DQ, NL] @ body @ [DQ, DQ, DQ] @ rest \<and> body \<noteq> []
          \<and> \<not> sublist [DQ, DQ, DQ] (body @ [DQ, DQ])
          \<and> parseAndConvertConfig code = (convertUserConfig (collectUserConfig body), trim rest)
   else parseAndConvertConfig code = (emptyConfig, code)"
  by (rule parseAndConvertConfig_cases)

text \<open>
  C8 at two blocks: \<^verbatim>\<open>"""\n--sketch\n--pad=50\n"""\nshape\<close>, whose header is recognised,
  and \<^verbatim>\<open>shape\<close>, which has none.
\<close>

theorem C8_witness:
  "(\<exists>body rest. [DQ, DQ, DQ, NL] @ ''--sketch'' @ [NL] @ ''--pad=50'' @ [NL, DQ, DQ, DQ, NL] @ ''shape''
        = [DQ, DQ, DQ, NL] @ body @ [DQ, DQ, DQ] @ rest
      \<and> body \<noteq> [] \<and> \<not> sublist [DQ, DQ, DQ] (body @ [DQ, DQ])
      \<and> parseAndConvertConfig ([DQ, DQ, DQ, NL] @ ''--sketch'' @ [NL] @ ''--pad=50''
            @ [NL, DQ, DQ, DQ, NL] @ ''shape'')
          = (convertUserConfig (collectUserConfig body), trim rest))
   \<and> parseAndConvertConfig ([DQ, DQ, DQ, NL] @ ''--sketch'' @ [NL] @ ''--pad=50''
         @ [NL, DQ, DQ, DQ, NL] @ ''shape'')
       = (emptyConfig\<lparr>pad := Val (Num 50), sketch := Val True\<rparr>, ''shape'')
   \<and> parseAndConvertConfig ''shape'' = (emptyConfig, ''shape'')"
proof -
  let ?w = "[DQ, DQ, DQ, NL] @ ''--sketch'' @ [NL] @ ''--pad=50'' @ [NL, DQ, DQ, DQ, NL] @ ''shape''"
  have c: "prefix [DQ, DQ, DQ, NL] ?w \<and> sublist [DQ, DQ, DQ] (drop 4 ?w)
      \<and> \<not> prefix [DQ, DQ, DQ, NL, DQ, DQ, DQ] ?w"
    by code_simp
  have n: "\<not> (prefix [DQ, DQ, DQ, NL] ''shape'' \<and> sublist [DQ, DQ, DQ] (drop 4 ''shape'')
      \<and> \<not> prefix [DQ, DQ, DQ, NL, DQ, DQ, DQ] ''shape'')"
    by code_simp
  have v: "parseAndConvertConfig ?w
      = (emptyConfig\<lparr>pad := Val (Num 50), sketch := Val True\<rparr>, ''shape'')"
    by code_simp
  from C8_header_recognition [of ?w] have e: "\<exists>body rest. ?w = [DQ, DQ, DQ, NL] @ body @ [DQ, DQ, DQ] @ rest
      \<and> body \<noteq> [] \<and> \<not> sublist [DQ, DQ, DQ] (body @ [DQ, DQ])
      \<and> parseAndConvertConfig ?w = (convertUserConfig (collectUserConfig body), trim rest)"
    unfolding if_P [OF c] .
  from C8_header_recognition [of "''shape''"]
  have s: "parseAndConvertConfig ''shape'' = (emptyConfig, ''shape'')"
    unfolding if_not_P [OF n] .
  from e v s show ?thesis by (intro conjI)
qed

text \<open>
  C8, as stated: the block \<^verbatim>\<open>"""\n"""\nshape\<close> begins with three double quotes and a line
  feed and has a later triple-quote sequence, yet it is returned unchanged, with its header
  span, and not as \<^verbatim>\<open>shape\<close>.
\<close>

theorem C8_counterexample:
  "prefix [DQ, DQ, DQ, NL] ([DQ, DQ, DQ, NL, DQ, DQ, DQ, NL] @ ''shape'')
   \<and> sublist [DQ, DQ, DQ] (drop 4 ([DQ, DQ, DQ, NL, DQ, DQ, DQ, NL] @ ''shape''))
   \<and> parseAndConvertConfig ([DQ, DQ, DQ, NL, DQ, DQ, DQ, NL] @ ''shape'')
       = (emptyConfig, [DQ, DQ, DQ, NL, DQ, DQ, DQ, NL] @ ''shape'')
   \<and> snd (parseAndConvertConfig ([DQ, DQ, DQ, NL, DQ, DQ, DQ, NL] @ ''shape'')) \<noteq> ''shape''"
  by code_simp

section \<open>The code handed to the renderer\<close>

text \<open>\<^verbatim>\<open>trim()\<close> removes white space at the two ends of a text, and nothing else.\<close>

lemma trim_ends:
  "\<exists>before after. s = before @ trim s @ after
     \<and> (\<forall>c\<in>set before. is_space c) \<and> (\<forall>c\<in>set after. is_space c)"
proof -
  let ?d = "dropWhile is_space s"
  let ?a = "rev (takeWhile is_space (rev ?d))"
  have "rev ?d = takeWhile is_space (rev ?d) @ dropWhile is_space (rev ?d)"
    by (simp only: takeWhile_dropWhile_id)
  then have "rev (rev ?d) = rev (takeWhile is_space (rev ?d) @ dropWhile is_space (rev ?d))"
    by (rule arg_cong)
  then have d: "?d = trim s @ ?a"
    by (simp only: rev_rev_ident rev_append trim_def trimEnd_def trimStart_def)
  have "s = takeWhile is_space s @ ?d"
    by (simp only: takeWhile_dropWhile_id)
  with d have "s = takeWhile is_space s @ trim s @ ?a"
    by (simp only:)
  moreover have "\<forall>c\<in>set (takeWhile is_space s). is_space c"
    by (auto dest: set_takeWhileD)
  moreover have "\<forall>c\<in>set ?a. is_space c"
    by (auto dest: set_takeWhileD)
  ultimately show ?thesis by blast
qed

text \<open>
  C3, as amended. The code \<^verbatim>\<open>parseConfig\<close> returns is not the comment-free code. When the
  block begins with a recognised header (the opening delimiter, a body that is not empty,
  the closing delimiter), it is the text after the header without the white space at its
  two ends, and nothing else is taken from that text: its comments and the embedded
  configuration block are still in it. In every other case it is the block unchanged.
  This holds for every default configuration.
\<close>

theorem C3_returned_code:
  "if prefix [DQ, DQ, DQ, NL] content \<and> sublist [DQ, DQ, DQ] (drop 4 content)
      \<and> \<not> prefix [DQ, DQ, DQ, NL, DQ, DQ, DQ] content
   then \<exists>body rest before after.
          content = [DQ, DQ, DQ, NL] @ body @ [DQ, DQ, DQ] @ rest \<and> body \<noteq> []
          \<and> \<not> sublist [DQ, DQ, DQ] (body @ [DQ, DQ])
          \<and> snd (parseConfig content defaultConfig) = trim rest
          \<and> rest = before @ snd (parseConfig content defaultConfig) @ after
          \<and> (\<forall>c\<in>set before. is_space c) \<and> (\<forall>c\<in>set after. is_space c)
   else snd (parseConfig content defaultConfig) = content"
proof -
  let ?cond = "prefix [DQ, DQ, DQ, NL] content \<and> sublist [DQ, DQ, DQ] (drop 4 content)
      \<and> \<not> prefix [DQ, DQ, DQ, NL, DQ, DQ, DQ] content"
  have s: "snd (parseConfig content defaultConfig) = snd (parseAndConvertConfig content)"
    by (simp add: parseConfig_def Let_def)
  show ?thesis
  proof (cases ?cond)
    case True
    from parseAndConvertConfig_cases [of content] obtain body rest where
      c: "content = [DQ, DQ, DQ, NL] @ body @ [DQ, DQ, DQ] @ rest" and b: "body \<noteq> []"
      and n: "\<not> sublist [DQ, DQ, DQ] (body @ [DQ, DQ])"
      and p: "parseAndConvertConfig content = (convertUserConfig (collectUserConfig body), trim rest)"
      unfolding if_P [OF True] by blast
    from p have t: "snd (parseConfig content defaultConfig) = trim rest"
      unfolding s by simp
    from trim_ends [of rest] obtain before after where
      "rest = before @ trim rest @ after"
      and "\<forall>c\<in>set before. is_space c" and "\<forall>c\<in>set after. is_space c"
      by blast
    with c b n t have "\<exists>body rest before after.
        content = [DQ, DQ, DQ, NL] @ body @ [DQ, DQ, DQ] @ rest \<and> body \<noteq> []
        \<and> \<not> sublist [DQ, DQ, DQ] (body @ [DQ, DQ])
        \<and> snd (parseConfig content defaultConfig) = trim rest
        \<and> rest = before @ snd (parseConfig content defaultConfig) @ after
        \<and> (\<forall>c\<in>set before. is_space c) \<and> (\<forall>c\<in>set after. is_space c)"
      unfolding t by blast
    then show ?thesis unfolding if_P [OF True] .
  next
    case False
    from parseAndConvertConfig_cases [of content]
    have "parseAndConvertConfig content = (emptyConfig, content)"
      unfolding if_not_P [OF False] .
    then have "snd (parseConfig content defaultConfig) = content"
      unfolding s by simp
    then show ?thesis unfolding if_not_P [OF False] .
  qed
qed

text \<open>
  C3 at two blocks. The first has the header \<^verbatim>\<open>"""\n--sketch\n"""\<close>, then an empty line,
  the embedded block \<^verbatim>\<open>vars: {\n  d2-config: {\n    pad: 5\n  }\n}\<close>, the line
  \<^verbatim>\<open>a -> b # note\<close> and a line of two blanks: the returned code is the embedded block and
  the line with its comment. The second, \<^verbatim>\<open>a # c\<close>, has no header.
\<close>

theorem C3_witness:
  "(\<exists>body rest before after.
      [DQ, DQ, DQ, NL] @ ''--sketch'' @ [NL, DQ, DQ, DQ, NL, NL] @ ''vars: {'' @ [NL]
          @ ''  d2-config: {'' @ [NL] @ ''    pad: 5'' @ [NL] @ ''  }'' @ [NL] @ ''}'' @ [NL]
          @ ''a -> b # note'' @ [NL] @ ''  ''
        = [DQ, DQ, DQ, NL] @ body @ [DQ, DQ, DQ] @ rest
      \<and> body \<noteq> [] \<and> \<not> sublist [DQ, DQ, DQ] (body @ [DQ, DQ])
      \<and> snd (parseConfig ([DQ, DQ, DQ, NL] @ ''--sketch'' @ [NL, DQ, DQ, DQ, NL, NL] @ ''vars: {''
            @ [NL] @ ''  d2-config: {'' @ [NL] @ ''    pad: 5'' @ [NL] @ ''  }'' @ [NL] @ ''}'' @ [NL]
            @ ''a -> b # note'' @ [NL] @ ''  '') emptyConfig) = trim rest
      \<and> rest = before @ snd (parseConfig ([DQ, DQ, DQ, NL] @ ''--sketch'' @ [NL, DQ, DQ, DQ, NL, NL]
            @ ''vars: {'' @ [NL] @ ''  d2-config: {'' @ [NL] @ ''    pad: 5'' @ [NL] @ ''  }'' @ [NL]
            @ ''}'' @ [NL] @ ''a -> b # note'' @ [NL] @ ''  '') emptyConfig) @ after
      \<and> (\<forall>c\<in>set before. is_space c) \<and> (\<forall>c\<in>set after. is_space c))
   \<and> snd (parseConfig ([DQ, DQ, DQ, NL] @ ''--sketch'' @ [NL, DQ, DQ, DQ, NL, NL] @ ''vars: {''
         @ [NL] @ ''  d2-config: {'' @ [NL] @ ''    pad: 5'' @ [NL] @ ''  }'' @ [NL] @ ''}'' @ [NL]
         @ ''a -> b # note'' @ [NL] @ ''  '') emptyConfig)
       = ''vars: {'' @ [NL] @ ''  d2-config: {'' @ [NL] @ ''    pad: 5'' @ [NL] @ ''  }'' @ [NL]
         @ ''}'' @ [NL] @ ''a -> b # note''
   \<and> snd (parseConfig ''a # c'' emptyConfig) = ''a # c''"
proof -
  let ?w = "[DQ, DQ, DQ, NL] @ ''--sketch'' @ [NL, DQ, DQ, DQ, NL, NL] @ ''vars: {'' @ [NL]
      @ ''  d2-config: {'' @ [NL] @ ''    pad: 5'' @ [NL] @ ''  }'' @ [NL] @ ''}'' @ [NL]
      @ ''a -> b # note'' @ [NL] @ ''  ''"
  have c: "prefix [DQ, DQ, DQ, NL] ?w \<and> sublist [DQ, DQ, DQ] (drop 4 ?w)
      \<and> \<not> prefix [DQ, DQ, DQ, NL, DQ, DQ, DQ] ?w"
    by code_simp
  have n: "\<not> (prefix [DQ, DQ, DQ, NL] ''a # c'' \<and> sublist [DQ, DQ, DQ] (drop 4 ''a # c'')
      \<and> \<not> prefix [DQ, DQ, DQ, NL, DQ, DQ, DQ] ''a # c'')"
    by code_simp
  have v: "snd (parseConfig ?w emptyConfig)
      = ''vars: {'' @ [NL] @ ''  d2-config: {'' @ [NL] @ ''    pad: 5'' @ [NL] @ ''  }'' @ [NL]
        @ ''}'' @ [NL] @ ''a -> b # note''"
    by code_simp
  from C3_returned_code [of ?w emptyConfig]
  have e: "\<exists>body rest before after. ?w = [DQ, DQ, DQ, NL] @ body @ [DQ, DQ, DQ] @ rest
      \<and> body \<noteq> [] \<and> \<not> sublist [DQ, DQ, DQ] (body @ [DQ, DQ])
      \<and> snd (parseConfig ?w emptyConfig) = trim rest
      \<and> rest = before @ snd (parseConfig ?w emptyConfig) @ after
      \<and> (\<forall>c\<in>set before. is_space c) \<and> (\<forall>c\<in>set after. is_space c)"
    unfolding if_P [OF c] .
  from C3_returned_code [of "''a # c''" emptyConfig]
  have s: "snd (parseConfig ''a # c'' emptyConfig) = ''a # c''"
    unfolding if_not_P [OF n] .
  from e v s show ?thesis by (intro conjI)
qed

text \<open>
  C3, as stated: on the block \<^verbatim>\<open>a # c\<close> the returned code is the block itself, and not
  the block without its comment, which is \<^verbatim>\<open>a\<close>.
\<close>

theorem C3_counterexample:
  "snd (parseConfig ''a # c'' emptyConfig) = ''a # c''
   \<and> removeCommentsFromD2 (snd (parseAndConvertConfig ''a # c'')) = ''a''
   \<and> snd (parseConfig ''a # c'' emptyConfig)
       \<noteq> removeCommentsFromD2 (snd (parseAndConvertConfig ''a # c''))"
  by code_simp

section \<open>Numeric directives\<close>

lemma applyDirective_pad:
  "pad (applyDirective c e) = (if fst e = ''--pad'' then Val (parseInt (snd e)) else pad c)"
  by (simp add: applyDirective_def Let_def)

lemma applyDirective_animateInterval:
  "animateInterval (applyDirective c e)
     = (if fst e = ''--animate-interval'' then Val (parseInt (snd e)) else animateInterval c)"
  by (simp add: applyDirective_def Let_def)

lemma applyDirective_timeout:
  "timeout (applyDirective c e)
     = (if fst e = ''--timeout'' then Val (parseInt (snd e)) else timeout c)"
  by (simp add: applyDirective_def Let_def)

text \<open>
  On an object whose keys are distinct, the conversion loop gives each of the three
  properties the \<^verbatim>\<open>parseInt\<close> of the value stored under its key.
\<close>

lemma convert_keeps_pad:
  "''--pad'' \<notin> fst ` set uc \<Longrightarrow> pad (foldl applyDirective c uc) = pad c"
  by (induction uc arbitrary: c) (auto simp: applyDirective_pad)

lemma convert_keeps_animateInterval:
  "''--animate-interval'' \<notin> fst ` set uc
   \<Longrightarrow> animateInterval (foldl applyDirective c uc) = animateInterval c"
  by (induction uc arbitrary: c) (auto simp: applyDirective_animateInterval)

lemma convert_keeps_timeout:
  "''--timeout'' \<notin> fst ` set uc \<Longrightarrow> timeout (foldl applyDirective c uc) = timeout c"
  by (induction uc arbitrary: c) (auto simp: applyDirective_timeout)

lemma convert_sets_pad:
  "distinct (map fst uc) \<Longrightarrow> map_of uc ''--pad'' = Some v
   \<Longrightarrow> pad (foldl applyDirective c uc) = Val (parseInt v)"
proof (induction uc arbitrary: c)
  case Nil
  then show ?case by simp
next
  case (Cons e uc)
  show ?case
  proof (cases "fst e = ''--pad''")
    case True
    with Cons.prems have "snd e = v" and "''--pad'' \<notin> fst ` set uc"
      by (auto split: if_splits)
    then show ?thesis
      using True by (simp add: convert_keeps_pad applyDirective_pad)
  next
    case False
    with Cons.prems have "distinct (map fst uc)" and "map_of uc ''--pad'' = Some v"
      by (auto split: if_splits)
    then show ?thesis using Cons.IH by simp
  qed
qed

lemma convert_sets_animateInterval:
  "distinct (map fst uc) \<Longrightarrow> map_of uc ''--animate-interval'' = Some v
   \<Longrightarrow> animateInterval (foldl applyDirective c uc) = Val (parseInt v)"
proof (induction uc arbitrary: c)
  case Nil
  then show ?case by simp
next
  case (Cons e uc)
  show ?case
  proof (cases "fst e = ''--animate-interval''")
    case True
    with Cons.prems have "snd e = v" and "''--animate-interval'' \<notin> fst ` set uc"
      by (auto split: if_splits)
    then show ?thesis
      using True by (simp add: convert_keeps_animateInterval applyDirective_animateInterval)
  next
    case False
    with Cons.prems have "distinct (map fst uc)"
      and "map_of uc ''--animate-interval'' = Some v"
      by (auto split: if_splits)
    then show ?thesis using Cons.IH by simp
  qed
qed

lemma convert_sets_timeout:
  "distinct (map fst uc) \<Longrightarrow> map_of uc ''--timeout'' = Some v
   \<Longrightarrow> timeout (foldl applyDirective c uc) = Val (parseInt v)"
proof (induction uc arbitrary: c)
  case Nil
  then show ?case by simp
next
  case (Cons e uc)
  show ?case
  proof (cases "fst e = ''--timeout''")
    case True
    with Cons.prems have "snd e = v" and "''--timeout'' \<notin> fst ` set uc"
      by (auto split: if_splits)
    then show ?thesis
      using True by (simp add: convert_keeps_timeout applyDirective_timeout)
  next
    case False
    with Cons.prems have "distinct (map fst uc)" and "map_of uc ''--timeout'' = Some v"
      by (auto split: if_splits)
    then show ?thesis using Cons.IH by simp
  qed
qed

lemma directiveStep_distinct:
  "distinct (map fst uc) \<Longrightarrow> distinct (map fst (directiveStep uc line))"
  by (auto simp: directiveStep_def Let_def distinct_update split: list.splits)

lemma foldl_directiveStep_distinct:
  "distinct (map fst uc) \<Longrightarrow> distinct (map fst (foldl directiveStep uc ls))"
  by (induction ls arbitrary: uc) (simp_all add: directiveStep_distinct)

lemma userConfigOf_distinct: "distinct (map fst (userConfigOf content))"
  by (auto simp: userConfigOf_def collectUserConfig_def foldl_directiveStep_distinct
      split: option.splits)

lemma fst_parseAndConvertConfig:
  "fst (parseAndConvertConfig content) = convertUserConfig (userConfigOf content)"
  by (auto simp: parseAndConvertConfig_def userConfigOf_def convertUserConfig_def
      split: option.splits)

text \<open>The merge, property by property.\<close>

lemma parseConfig_timeout:
  "timeout (fst (parseConfig content d))
     = spreadProperty (timeout d) (timeout (fst (parseAndConvertConfig content)))"
  by (simp add: parseConfig_def Let_def spread_def convertD2ConfigToConfig_def emptyConfig_def)

lemma parseConfig_animateInterval:
  "animateInterval (fst (parseAndConvertConfig content)) = Val x
   \<Longrightarrow> animateInterval (fst (parseConfig content d)) = Val x"
  by (simp add: parseConfig_def Let_def spread_def convertD2ConfigToConfig_def emptyConfig_def)

lemma parseConfig_pad:
  "pad (fst (parseConfig content d))
     = spreadProperty (spreadProperty (pad d) (pad (fst (parseAndConvertConfig content))))
         (ofOption (D2Config.pad (d2FileConfigOf content)))"
  by (simp add: parseConfig_def Let_def spread_def convertD2ConfigToConfig_def emptyConfig_def
      d2FileConfigOf_def cleanedCodeOf_def)

lemma parseConfig_sketch:
  "sketch (fst (parseConfig content d))
     = spreadProperty (spreadProperty (sketch d) (sketch (fst (parseAndConvertConfig content))))
         (ofOption (D2Config.sketch (d2FileConfigOf content)))"
  by (simp add: parseConfig_def Let_def spread_def convertD2ConfigToConfig_def emptyConfig_def
      d2FileConfigOf_def cleanedCodeOf_def)

lemma parseConfig_center:
  "center (fst (parseConfig content d))
     = spreadProperty (spreadProperty (center d) (center (fst (parseAndConvertConfig content))))
         (ofOption (D2Config.center (d2FileConfigOf content)))"
  by (simp add: parseConfig_def Let_def spread_def convertD2ConfigToConfig_def emptyConfig_def
      d2FileConfigOf_def cleanedCodeOf_def)

text \<open>
  C9, as amended. When the header holds a directive \<^verbatim>\<open>--pad\<close>, \<^verbatim>\<open>--animate-interval\<close> or
  \<^verbatim>\<open>--timeout\<close> whose value \<open>v\<close> does not parse as an integer, the property of the directive
  configuration is set to \<open>NaN\<close>. For \<open>animateInterval\<close> and \<open>timeout\<close> the final
  configuration has \<open>NaN\<close> too, whatever the default configuration. For \<open>pad\<close> it has
  \<open>NaN\<close> when the embedded block sets no \<open>pad\<close>, and the block's value when it sets one.
\<close>

theorem C9_nan_directive:
  assumes "parseInt v = NaN"
  shows "(map_of (userConfigOf content) ''--pad'' = Some v \<longrightarrow>
            pad (fst (parseAndConvertConfig content)) = Val NaN
            \<and> (D2Config.pad (d2FileConfigOf content) = None \<longrightarrow>
                 pad (fst (parseConfig content defaultConfig)) = Val NaN)
            \<and> (\<forall>p. D2Config.pad (d2FileConfigOf content) = Some p \<longrightarrow>
                 pad (fst (parseConfig content defaultConfig)) = Val p))
       \<and> (map_of (userConfigOf content) ''--animate-interval'' = Some v \<longrightarrow>
            animateInterval (fst (parseAndConvertConfig content)) = Val NaN
            \<and> animateInterval (fst (parseConfig content defaultConfig)) = Val NaN)
       \<and> (map_of (userConfigOf content) ''--timeout'' = Some v \<longrightarrow>
            timeout (fst (parseAndConvertConfig content)) = Val NaN
            \<and> timeout (fst (parseConfig content defaultConfig)) = Val NaN)"
proof (intro conjI impI allI)
  assume m: "map_of (userConfigOf content) ''--pad'' = Some v"
  show d: "pad (fst (parseAndConvertConfig content)) = Val NaN"
    unfolding fst_parseAndConvertConfig convertUserConfig_def
    using convert_sets_pad [OF userConfigOf_distinct m] assms by simp
  show "pad (fst (parseConfig content defaultConfig)) = Val NaN"
    if "D2Config.pad (d2FileConfigOf content) = None"
    unfolding parseConfig_pad d that by (simp add: ofOption_def)
  show "pad (fst (parseConfig content defaultConfig)) = Val p"
    if "D2Config.pad (d2FileConfigOf content) = Some p" for p
    unfolding parseConfig_pad d that by (simp add: ofOption_def)
next
  assume m: "map_of (userConfigOf content) ''--animate-interval'' = Some v"
  show d: "animateInterval (fst (parseAndConvertConfig content)) = Val NaN"
    unfolding fst_parseAndConvertConfig convertUserConfig_def
    using convert_sets_animateInterval [OF userConfigOf_distinct m] assms by simp
  show "animateInterval (fst (parseConfig content defaultConfig)) = Val NaN"
    by (rule parseConfig_animateInterval [OF d])
next
  assume m: "map_of (userConfigOf content) ''--timeout'' = Some v"
  show d: "timeout (fst (parseAndConvertConfig content)) = Val NaN"
    unfolding fst_parseAndConvertConfig convertUserConfig_def
    using convert_sets_timeout [OF userConfigOf_distinct m] assms by simp
  show "timeout (fst (parseConfig content defaultConfig)) = Val NaN"
    unfolding parseConfig_timeout d by simp
qed

text \<open>
  C9 at the block
  \<^verbatim>\<open>"""\n--pad=abc\n--animate-interval=abc\n--timeout=abc\n"""\nshape\<close>, merged into a
  default configuration that sets all three properties to 7.
\<close>

theorem C9_witness:
  "pad (fst (parseConfig ([DQ, DQ, DQ, NL] @ ''--pad=abc'' @ [NL] @ ''--animate-interval=abc''
        @ [NL] @ ''--timeout=abc'' @ [NL, DQ, DQ, DQ, NL] @ ''shape'')
      (emptyConfig\<lparr>pad := Val (Num 7), animateInterval := Val (Num 7),
         timeout := Val (Num 7)\<rparr>))) = Val NaN
   \<and> animateInterval (fst (parseConfig ([DQ, DQ, DQ, NL] @ ''--pad=abc'' @ [NL]
        @ ''--animate-interval=abc'' @ [NL] @ ''--timeout=abc'' @ [NL, DQ, DQ, DQ, NL] @ ''shape'')
      (emptyConfig\<lparr>pad := Val (Num 7), animateInterval := Val (Num 7),
         timeout := Val (Num 7)\<rparr>))) = Val NaN
   \<and> timeout (fst (parseConfig ([DQ, DQ, DQ, NL] @ ''--pad=abc'' @ [NL]
        @ ''--animate-interval=abc'' @ [NL] @ ''--timeout=abc'' @ [NL, DQ, DQ, DQ, NL] @ ''shape'')
      (emptyConfig\<lparr>pad := Val (Num 7), animateInterval := Val (Num 7),
         timeout := Val (Num 7)\<rparr>))) = Val NaN"
proof -
  let ?w = "[DQ, DQ, DQ, NL] @ ''--pad=abc'' @ [NL] @ ''--animate-interval=abc''
        @ [NL] @ ''--timeout=abc'' @ [NL, DQ, DQ, DQ, NL] @ ''shape''"
  let ?d = "emptyConfig\<lparr>pad := Val (Num 7), animateInterval := Val (Num 7),
         timeout := Val (Num 7)\<rparr>"
  have v: "parseInt ''abc'' = NaN" by code_simp
  have p: "map_of (userConfigOf ?w) ''--pad'' = Some ''abc''" by code_simp
  have a: "map_of (userConfigOf ?w) ''--animate-interval'' = Some ''abc''" by code_simp
  have t: "map_of (userConfigOf ?w) ''--timeout'' = Some ''abc''" by code_simp
  have i: "D2Config.pad (d2FileConfigOf ?w) = None" by code_simp
  from C9_nan_directive [OF v, of ?w ?d] p a t i show ?thesis by blast
qed

text \<open>
  C9, as stated: in the block
  \<^verbatim>\<open>"""\n--pad=abc\n"""\nvars: { d2-config: { pad: 5 } }\<close> the directive's value does not
  parse and the directive configuration has \<open>pad = NaN\<close>, but the final configuration has
  the embedded block's \<open>pad = 5\<close>.
\<close>

theorem C9_counterexample:
  "map_of (userConfigOf ([DQ, DQ, DQ, NL] @ ''--pad=abc'' @ [NL, DQ, DQ, DQ, NL]
       @ ''vars: { d2-config: { pad: 5 } }'')) ''--pad'' = Some ''abc''
   \<and> parseInt ''abc'' = NaN
   \<and> pad (fst (parseAndConvertConfig ([DQ, DQ, DQ, NL] @ ''--pad=abc'' @ [NL, DQ, DQ, DQ, NL]
       @ ''vars: { d2-config: { pad: 5 } }''))) = Val NaN
   \<and> pad (fst (parseConfig ([DQ, DQ, DQ, NL] @ ''--pad=abc'' @ [NL, DQ, DQ, DQ, NL]
       @ ''vars: { d2-config: { pad: 5 } }'') emptyConfig)) = Val (Num 5)
   \<and> pad (fst (parseConfig ([DQ, DQ, DQ, NL] @ ''--pad=abc'' @ [NL, DQ, DQ, DQ, NL]
       @ ''vars: { d2-config: { pad: 5 } }'') emptyConfig)) \<noteq> Val NaN"
  by code_simp

section \<open>Boolean settings of the embedded block\<close>

lemma d2ConfigStep_sketch:
  "D2Config.sketch (d2ConfigStep c l)
     = (if settingOf ''sketch'' l then Some (settingValue l = ''true'') else D2Config.sketch c)"
  by (auto simp: d2ConfigStep_def settingOf_def settingValue_def Let_def split: list.splits)

lemma d2ConfigStep_center:
  "D2Config.center (d2ConfigStep c l)
     = (if settingOf ''center'' l then Some (settingValue l = ''true'') else D2Config.center c)"
  by (auto simp: d2ConfigStep_def settingOf_def settingValue_def Let_def split: list.splits)

lemma inline_keeps_sketch:
  "list_all (\<lambda>l. \<not> settingOf ''sketch'' l) ls
   \<Longrightarrow> D2Config.sketch (foldl d2ConfigStep c ls) = D2Config.sketch c"
  by (induction ls arbitrary: c) (simp_all add: d2ConfigStep_sketch)

lemma inline_keeps_center:
  "list_all (\<lambda>l. \<not> settingOf ''center'' l) ls
   \<Longrightarrow> D2Config.center (foldl d2ConfigStep c ls) = D2Config.center c"
  by (induction ls arbitrary: c) (simp_all add: d2ConfigStep_center)

lemma inline_last_sketch:
  "settingOf ''sketch'' l \<Longrightarrow> list_all (\<lambda>l. \<not> settingOf ''sketch'' l) post
   \<Longrightarrow> D2Config.sketch (foldl d2ConfigStep c (pre @ l # post)) = Some (settingValue l = ''true'')"
  by (simp add: inline_keeps_sketch d2ConfigStep_sketch)

lemma inline_last_center:
  "settingOf ''center'' l \<Longrightarrow> list_all (\<lambda>l. \<not> settingOf ''center'' l) post
   \<Longrightarrow> D2Config.center (foldl d2ConfigStep c (pre @ l # post)) = Some (settingValue l = ''true'')"
  by (simp add: inline_keeps_center d2ConfigStep_center)

lemma d2FileConfigOf_lines:
  assumes "splitOn NL (getD2ConfigContent (cleanedCodeOf content)) = pre @ line # post"
    and "line \<noteq> []"
  shows "d2FileConfigOf content = foldl d2ConfigStep emptyD2Config (pre @ line # post)"
proof -
  have "getD2ConfigContent (cleanedCodeOf content) \<noteq> []"
  proof
    assume "getD2ConfigContent (cleanedCodeOf content) = []"
    with assms(1) have "[[]] = pre @ line # post" by simp
    with assms(2) show False by (cases pre) simp_all
  qed
  then show ?thesis
    by (simp add: d2FileConfigOf_def parseAndConvertD2Config_def Let_def assms(1))
qed

text \<open>
  C10, as amended. Let a line of the embedded block be a setting of \<open>sketch\<close> (or
  \<open>center\<close>): one colon, the key before it. If its value is anything but the exact text
  \<^verbatim>\<open>true\<close> and no later line of the block sets the same key, the inline parser sets the
  property to an explicit \<open>False\<close>, and the final configuration has \<open>False\<close> whatever the
  default and the directive configurations hold.
\<close>

theorem C10_explicit_false:
  assumes "splitOn NL (getD2ConfigContent (cleanedCodeOf content)) = pre @ line # post"
    and "settingValue line \<noteq> ''true''"
  shows "(settingOf ''sketch'' line \<and> list_all (\<lambda>l. \<not> settingOf ''sketch'' l) post \<longrightarrow>
            D2Config.sketch (d2FileConfigOf content) = Some False
            \<and> sketch (fst (parseConfig content defaultConfig)) = Val False)
       \<and> (settingOf ''center'' line \<and> list_all (\<lambda>l. \<not> settingOf ''center'' l) post \<longrightarrow>
            D2Config.center (d2FileConfigOf content) = Some False
            \<and> center (fst (parseConfig content defaultConfig)) = Val False)"
proof (intro conjI impI; elim conjE)
  assume s: "settingOf ''sketch'' line" and p: "list_all (\<lambda>l. \<not> settingOf ''sketch'' l) post"
  from s have "line \<noteq> []" by (simp add: settingOf_def)
  from d2FileConfigOf_lines [OF assms(1) this] inline_last_sketch [OF s p] assms(2)
  show i: "D2Config.sketch (d2FileConfigOf content) = Some False" by simp
  show "sketch (fst (parseConfig content defaultConfig)) = Val False"
    unfolding parseConfig_sketch i by (simp add: ofOption_def)
next
  assume s: "settingOf ''center'' line" and p: "list_all (\<lambda>l. \<not> settingOf ''center'' l) post"
  from s have "line \<noteq> []" by (simp add: settingOf_def)
  from d2FileConfigOf_lines [OF assms(1) this] inline_last_center [OF s p] assms(2)
  show i: "D2Config.center (d2FileConfigOf content) = Some False" by simp
  show "center (fst (parseConfig content defaultConfig)) = Val False"
    unfolding parseConfig_center i by (simp add: ofOption_def)
qed

text \<open>
  C10 at the block
  \<^verbatim>\<open>"""\n--sketch\n"""\nvars: { d2-config: {\nsketch: "true"\ncenter: false\n} }\<close>, whose
  header sets \<open>sketch\<close> to true, merged into a default configuration that sets \<open>center\<close> to
  true.
\<close>

theorem C10_witness:
  "sketch (fst (parseAndConvertConfig ([DQ, DQ, DQ, NL] @ ''--sketch'' @ [NL, DQ, DQ, DQ, NL]
       @ ''vars: { d2-config: {'' @ [NL] @ ''sketch: '' @ [DQ] @ ''true'' @ [DQ, NL]
       @ ''center: false'' @ [NL] @ ''} }''))) = Val True
   \<and> sketch (fst (parseConfig ([DQ, DQ, DQ, NL] @ ''--sketch'' @ [NL, DQ, DQ, DQ, NL]
       @ ''vars: { d2-config: {'' @ [NL] @ ''sketch: '' @ [DQ] @ ''true'' @ [DQ, NL]
       @ ''center: false'' @ [NL] @ ''} }'') (emptyConfig\<lparr>center := Val True\<rparr>))) = Val False
   \<and> center (fst (parseConfig ([DQ, DQ, DQ, NL] @ ''--sketch'' @ [NL, DQ, DQ, DQ, NL]
       @ ''vars: { d2-config: {'' @ [NL] @ ''sketch: '' @ [DQ] @ ''true'' @ [DQ, NL]
       @ ''center: false'' @ [NL] @ ''} }'') (emptyConfig\<lparr>center := Val True\<rparr>))) = Val False"
proof -
  let ?w = "[DQ, DQ, DQ, NL] @ ''--sketch'' @ [NL, DQ, DQ, DQ, NL]
       @ ''vars: { d2-config: {'' @ [NL] @ ''sketch: '' @ [DQ] @ ''true'' @ [DQ, NL]
       @ ''center: false'' @ [NL] @ ''} }''"
  let ?s = "''sketch: '' @ [DQ] @ ''true'' @ [DQ]"
  have l1: "splitOn NL (getD2ConfigContent (cleanedCodeOf ?w)) = [[]] @ ?s # [''center: false'', []]"
    by code_simp
  have l2: "splitOn NL (getD2ConfigContent (cleanedCodeOf ?w)) = [[], ?s] @ ''center: false'' # [[]]"
    by code_simp
  have v1: "settingValue ?s \<noteq> ''true''" by code_simp
  have v2: "settingValue ''center: false'' \<noteq> ''true''" by code_simp
  have s1: "settingOf ''sketch'' ?s \<and> list_all (\<lambda>l. \<not> settingOf ''sketch'' l) [''center: false'', []]"
    by code_simp
  have s2: "settingOf ''center'' ''center: false'' \<and> list_all (\<lambda>l. \<not> settingOf ''center'' l) [[]]"
    by code_simp
  have d: "sketch (fst (parseAndConvertConfig ?w)) = Val True" by code_simp
  from C10_explicit_false [OF l1 v1, of "emptyConfig\<lparr>center := Val True\<rparr>"] s1
  have a: "sketch (fst (parseConfig ?w (emptyConfig\<lparr>center := Val True\<rparr>))) = Val False"
    by blast
  from C10_explicit_false [OF l2 v2, of "emptyConfig\<lparr>center := Val True\<rparr>"] s2
  have b: "center (fst (parseConfig ?w (emptyConfig\<lparr>center := Val True\<rparr>))) = Val False"
    by blast
  from d a b show ?thesis by (intro conjI)
qed

text \<open>
  C10, as stated: in the block \<^verbatim>\<open>vars: { d2-config: {\nsketch: a:b\n} }\<close> the value of the
  \<open>sketch\<close> line is the text \<^verbatim>\<open>a:b\<close>, which is not \<^verbatim>\<open>true\<close>; the line has two colons and
  is skipped, the property stays unset, and the default's \<open>True\<close> is the final value.
\<close>

theorem C10_counterexample:
  "D2Config.sketch (d2FileConfigOf (''vars: { d2-config: {'' @ [NL] @ ''sketch: a:b'' @ [NL]
       @ ''} }'')) = None
   \<and> sketch (fst (parseConfig (''vars: { d2-config: {'' @ [NL] @ ''sketch: a:b'' @ [NL]
       @ ''} }'') (emptyConfig\<lparr>sketch := Val True\<rparr>))) = Val True"
  by code_simp

section \<open>The post-pass is idempotent\<close>

lemma is_blank_space: "is_blank c \<Longrightarrow> is_space c"
  by (auto simp: is_blank_def is_space_def)

lemma NL_not_blank: "\<not> is_blank NL"
  by (simp add: is_blank_def)

lemma stripLineTrail_Nil_iff: "stripLineTrail s = [] \<longleftrightarrow> s = []"
  by (cases s) simp_all

lemma collapseBlankLines_Nil_iff: "collapseBlankLines s = [] \<longleftrightarrow> s = []"
  by (cases s) simp_all

text \<open>The two ways a step of each replacement goes.\<close>

lemma stripLineTrail_match:
  "is_blank c \<and> dropWhile is_blank cs \<noteq> [] \<and> hd (dropWhile is_blank cs) = NL
   \<Longrightarrow> stripLineTrail (c # cs) = NL # stripLineTrail (tl (dropWhile is_blank cs))"
  by simp

lemma stripLineTrail_copy:
  "\<not> (is_blank c \<and> dropWhile is_blank cs \<noteq> [] \<and> hd (dropWhile is_blank cs) = NL)
   \<Longrightarrow> stripLineTrail (c # cs) = c # stripLineTrail cs"
  by (simp only: stripLineTrail.simps if_False)

lemma collapseBlankLines_match:
  "c = NL \<and> NL \<in> set (takeWhile is_space cs)
   \<Longrightarrow> collapseBlankLines (c # cs)
       = NL # collapseBlankLines (afterLastNL (takeWhile is_space cs) @ dropWhile is_space cs)"
  by simp

lemma collapseBlankLines_copy:
  "\<not> (c = NL \<and> NL \<in> set (takeWhile is_space cs))
   \<Longrightarrow> collapseBlankLines (c # cs) = c # collapseBlankLines cs"
  by (simp only: collapseBlankLines.simps if_False)

lemma noLineTrail_Cons:
  "noLineTrail (c # cs) \<longleftrightarrow>
     \<not> (is_blank c \<and> dropWhile is_blank cs \<noteq> [] \<and> hd (dropWhile is_blank cs) = NL)
     \<and> noLineTrail cs"
  by (simp only: noLineTrail.simps split: if_split) blast

lemma noBlankLine_Cons:
  "noBlankLine (c # cs) \<longleftrightarrow>
     \<not> (c = NL \<and> NL \<in> set (takeWhile is_space cs)) \<and> noBlankLine cs"
  by (simp only: noBlankLine.simps split: if_split) blast

declare stripLineTrail.simps(2) [simp del] collapseBlankLines.simps(2) [simp del]
  noLineTrail.simps(2) [simp del] noBlankLine.simps(2) [simp del]

text \<open>A run of blanks before a line feed, split off.\<close>

lemma blank_run_split:
  assumes "dropWhile is_blank cs \<noteq> []" and "hd (dropWhile is_blank cs) = NL"
  shows "cs = takeWhile is_blank cs @ NL # tl (dropWhile is_blank cs)"
proof -
  from hd_Cons_tl [OF assms(1)] have "NL # tl (dropWhile is_blank cs) = dropWhile is_blank cs"
    unfolding assms(2) .
  then have "takeWhile is_blank cs @ NL # tl (dropWhile is_blank cs)
      = takeWhile is_blank cs @ dropWhile is_blank cs"
    by (simp only:)
  then show ?thesis by (simp only: takeWhile_dropWhile_id)
qed

subsection \<open>The end of the text\<close>

lemma endsProperly_trimEnd: "endsProperly (trimEnd s)"
proof -
  have "dropWhile is_space (rev s) = [] \<or> \<not> is_space (hd (dropWhile is_space (rev s)))"
    using hd_dropWhile [of is_space "rev s"] by blast
  then show ?thesis
    by (auto simp: endsProperly_def trimEnd_def last_rev)
qed

lemma trimEnd_fixed: "endsProperly s \<Longrightarrow> trimEnd s = s"
proof (cases "s = []")
  case True
  then show ?thesis by (simp add: trimEnd_def)
next
  case False
  assume "endsProperly s"
  with False have "\<not> is_space (last s)" by (simp add: endsProperly_def)
  with False have "\<not> is_space (hd (rev s))" by (simp add: hd_rev)
  with False have "dropWhile is_space (rev s) = rev s" by (cases "rev s") simp_all
  then show ?thesis by (simp add: trimEnd_def)
qed

lemma endsProperly_ConsI: "endsProperly cs \<Longrightarrow> cs \<noteq> [] \<Longrightarrow> endsProperly (c # cs)"
  by (simp add: endsProperly_def)

lemma endsProperly_ConsD: "endsProperly (c # cs) \<Longrightarrow> cs \<noteq> [] \<Longrightarrow> endsProperly cs"
  by (simp add: endsProperly_def)

lemma endsProperly_appendI: "endsProperly ys \<Longrightarrow> ys \<noteq> [] \<Longrightarrow> endsProperly (xs @ ys)"
  by (simp add: endsProperly_def)

lemma endsProperly_appendD: "endsProperly (xs @ ys) \<Longrightarrow> ys \<noteq> [] \<Longrightarrow> endsProperly ys"
  by (simp add: endsProperly_def)

lemma endsProperly_not_NL: "\<not> endsProperly (xs @ [NL])"
  by (simp add: endsProperly_def is_space_NL)

lemma endsProperly_stripLineTrail: "endsProperly s \<Longrightarrow> endsProperly (stripLineTrail s)"
proof (induction s rule: stripLineTrail.induct)
  case 1
  then show ?case by simp
next
  case (2 c cs)
  let ?m = "is_blank c \<and> dropWhile is_blank cs \<noteq> [] \<and> hd (dropWhile is_blank cs) = NL"
  show ?case
  proof (cases ?m)
    case True
    let ?r = "tl (dropWhile is_blank cs)"
    from True have cs: "cs = takeWhile is_blank cs @ NL # ?r"
      using blank_run_split by blast
    have ne: "?r \<noteq> []"
    proof
      assume "?r = []"
      with cs have "c # cs = (c # takeWhile is_blank cs) @ [NL]" by simp
      with "2.prems" endsProperly_not_NL [of "c # takeWhile is_blank cs"] show False
        by (simp only:)
    qed
    have "c # cs = (c # takeWhile is_blank cs @ [NL]) @ ?r"
      using cs by simp
    with "2.prems" have "endsProperly ((c # takeWhile is_blank cs @ [NL]) @ ?r)"
      by (simp only:)
    then have "endsProperly ?r"
      using ne by (rule endsProperly_appendD)
    with "2.IH"(1) [OF True] have "endsProperly (stripLineTrail ?r)" .
    moreover have "stripLineTrail ?r \<noteq> []"
      using ne by (simp add: stripLineTrail_Nil_iff)
    ultimately have "endsProperly (NL # stripLineTrail ?r)"
      by (rule endsProperly_ConsI)
    then show ?thesis by (simp only: stripLineTrail_match [OF True])
  next
    case False
    show ?thesis
    proof (cases "cs = []")
      case True
      with "2.prems" show ?thesis
        unfolding stripLineTrail_copy [OF False] by simp
    next
      case ne: False
      from "2.prems" ne have "endsProperly cs" by (rule endsProperly_ConsD)
      with "2.IH"(2) [OF False] have "endsProperly (stripLineTrail cs)" .
      moreover have "stripLineTrail cs \<noteq> []"
        using ne by (simp add: stripLineTrail_Nil_iff)
      ultimately have "endsProperly (c # stripLineTrail cs)"
        by (rule endsProperly_ConsI)
      then show ?thesis by (simp only: stripLineTrail_copy [OF False])
    qed
  qed
qed

lemma endsProperly_spaces: "endsProperly cs \<Longrightarrow> cs \<noteq> [] \<Longrightarrow> dropWhile is_space cs \<noteq> []"
proof
  assume e: "endsProperly cs" and ne: "cs \<noteq> []" and d: "dropWhile is_space cs = []"
  from d have "\<forall>x\<in>set cs. is_space x" by simp
  with ne have "is_space (last cs)" by simp
  with e ne show False by (simp add: endsProperly_def)
qed

lemma endsProperly_collapseBlankLines:
  "endsProperly s \<Longrightarrow> endsProperly (collapseBlankLines s)"
proof (induction s rule: collapseBlankLines.induct)
  case 1
  then show ?case by simp
next
  case (2 c cs)
  let ?m = "c = NL \<and> NL \<in> set (takeWhile is_space cs)"
  show ?case
  proof (cases ?m)
    case True
    let ?t = "afterLastNL (takeWhile is_space cs) @ dropWhile is_space cs"
    from True have ne: "cs \<noteq> []" by auto
    from "2.prems" ne have e: "endsProperly cs" by (rule endsProperly_ConsD)
    from endsProperly_spaces [OF e ne] have d: "dropWhile is_space cs \<noteq> []" .
    have "endsProperly (takeWhile is_space cs @ dropWhile is_space cs)"
      using e by (simp only: takeWhile_dropWhile_id)
    then have "endsProperly (dropWhile is_space cs)"
      using d by (rule endsProperly_appendD)
    then have "endsProperly ?t"
      using d by (rule endsProperly_appendI)
    with "2.IH"(1) [OF True] have "endsProperly (collapseBlankLines ?t)" .
    moreover have "?t \<noteq> []"
      using d by (simp only: append_is_Nil_conv simp_thms)
    then have "collapseBlankLines ?t \<noteq> []"
      by (simp only: collapseBlankLines_Nil_iff not_False_eq_True)
    ultimately have "endsProperly (NL # collapseBlankLines ?t)"
      by (rule endsProperly_ConsI)
    then show ?thesis by (simp only: collapseBlankLines_match [OF True])
  next
    case False
    show ?thesis
    proof (cases "cs = []")
      case True
      with "2.prems" show ?thesis
        unfolding collapseBlankLines_copy [OF False] by simp
    next
      case ne: False
      from "2.prems" ne have "endsProperly cs" by (rule endsProperly_ConsD)
      with "2.IH"(2) [OF False] have "endsProperly (collapseBlankLines cs)" .
      moreover have "collapseBlankLines cs \<noteq> []"
        using ne by (simp add: collapseBlankLines_Nil_iff)
      ultimately have "endsProperly (c # collapseBlankLines cs)"
        by (rule endsProperly_ConsI)
      then show ?thesis by (simp only: collapseBlankLines_copy [OF False])
    qed
  qed
qed

subsection \<open>Blanks before a line feed\<close>

lemma noLineTrail_fixed: "noLineTrail s \<Longrightarrow> stripLineTrail s = s"
proof (induction s)
  case Nil
  then show ?case by simp
next
  case (Cons c cs)
  from Cons.prems have m: "\<not> (is_blank c \<and> dropWhile is_blank cs \<noteq> []
      \<and> hd (dropWhile is_blank cs) = NL)" and n: "noLineTrail cs"
    unfolding noLineTrail_Cons by blast+
  from Cons.IH [OF n] show ?case
    unfolding stripLineTrail_copy [OF m] by simp
qed

text \<open>
  What follows the blanks at the head of a text is a line feed after a replacement only
  if it was one before.
\<close>

lemma stripLineTrail_head:
  "\<not> (dropWhile is_blank cs \<noteq> [] \<and> hd (dropWhile is_blank cs) = NL)
   \<Longrightarrow> \<not> (dropWhile is_blank (stripLineTrail cs) \<noteq> []
         \<and> hd (dropWhile is_blank (stripLineTrail cs)) = NL)"
proof (induction cs)
  case Nil
  then show ?case by simp
next
  case (Cons x xs)
  show ?case
  proof (cases "is_blank x")
    case True
    then have d: "dropWhile is_blank (x # xs) = dropWhile is_blank xs" by simp
    from Cons.prems have q: "\<not> (dropWhile is_blank xs \<noteq> [] \<and> hd (dropWhile is_blank xs) = NL)"
      unfolding d .
    then have "\<not> (is_blank x \<and> dropWhile is_blank xs \<noteq> [] \<and> hd (dropWhile is_blank xs) = NL)"
      by blast
    then have f: "stripLineTrail (x # xs) = x # stripLineTrail xs"
      by (rule stripLineTrail_copy)
    have e: "dropWhile is_blank (x # stripLineTrail xs) = dropWhile is_blank (stripLineTrail xs)"
      using True by simp
    show ?thesis unfolding f e by (rule Cons.IH [OF q])
  next
    case False
    then have d: "dropWhile is_blank (x # xs) = x # xs" by simp
    from Cons.prems have "x \<noteq> NL" unfolding d by simp
    from False have f: "stripLineTrail (x # xs) = x # stripLineTrail xs"
      by (simp add: stripLineTrail_copy)
    have "dropWhile is_blank (x # stripLineTrail xs) = x # stripLineTrail xs"
      using False by simp
    with \<open>x \<noteq> NL\<close> show ?thesis unfolding f by simp
  qed
qed

lemma collapseBlankLines_head:
  "\<not> (dropWhile is_blank cs \<noteq> [] \<and> hd (dropWhile is_blank cs) = NL)
   \<Longrightarrow> \<not> (dropWhile is_blank (collapseBlankLines cs) \<noteq> []
         \<and> hd (dropWhile is_blank (collapseBlankLines cs)) = NL)"
proof (induction cs)
  case Nil
  then show ?case by simp
next
  case (Cons x xs)
  show ?case
  proof (cases "is_blank x")
    case True
    then have d: "dropWhile is_blank (x # xs) = dropWhile is_blank xs" by simp
    from Cons.prems have q: "\<not> (dropWhile is_blank xs \<noteq> [] \<and> hd (dropWhile is_blank xs) = NL)"
      unfolding d .
    from True NL_not_blank have "x \<noteq> NL" by blast
    then have f: "collapseBlankLines (x # xs) = x # collapseBlankLines xs"
      by (simp add: collapseBlankLines_copy)
    have e: "dropWhile is_blank (x # collapseBlankLines xs)
        = dropWhile is_blank (collapseBlankLines xs)"
      using True by simp
    show ?thesis unfolding f e by (rule Cons.IH [OF q])
  next
    case False
    then have d: "dropWhile is_blank (x # xs) = x # xs" by simp
    from Cons.prems have "x \<noteq> NL" unfolding d by simp
    then have f: "collapseBlankLines (x # xs) = x # collapseBlankLines xs"
      by (simp add: collapseBlankLines_copy)
    have "dropWhile is_blank (x # collapseBlankLines xs) = x # collapseBlankLines xs"
      using False by simp
    with \<open>x \<noteq> NL\<close> show ?thesis unfolding f by simp
  qed
qed

lemma noLineTrail_stripLineTrail: "noLineTrail (stripLineTrail s)"
proof (induction s rule: stripLineTrail.induct)
  case 1
  show ?case by simp
next
  case (2 c cs)
  let ?m = "is_blank c \<and> dropWhile is_blank cs \<noteq> [] \<and> hd (dropWhile is_blank cs) = NL"
  show ?case
  proof (cases ?m)
    case True
    from "2.IH"(1) [OF True] NL_not_blank show ?thesis
      unfolding stripLineTrail_match [OF True] noLineTrail_Cons by blast
  next
    case False
    have "\<not> (is_blank c \<and> dropWhile is_blank (stripLineTrail cs) \<noteq> []
        \<and> hd (dropWhile is_blank (stripLineTrail cs)) = NL)"
    proof (cases "is_blank c")
      case True
      with False have "\<not> (dropWhile is_blank cs \<noteq> [] \<and> hd (dropWhile is_blank cs) = NL)"
        by blast
      from stripLineTrail_head [OF this] show ?thesis by blast
    next
      case False
      then show ?thesis by blast
    qed
    with "2.IH"(2) [OF False] show ?thesis
      unfolding stripLineTrail_copy [OF False] noLineTrail_Cons by blast
  qed
qed

lemma noLineTrail_suffix: "noLineTrail (xs @ ys) \<Longrightarrow> noLineTrail ys"
proof (induction xs)
  case Nil
  then show ?case by simp
next
  case (Cons x xs)
  from Cons.prems have "noLineTrail (xs @ ys)"
    unfolding append_Cons noLineTrail_Cons by blast
  then show ?case by (rule Cons.IH)
qed

lemma afterLastNL_suffix: "\<exists>p. w = p @ afterLastNL w"
proof -
  have "rev w = takeWhile (\<lambda>x. x \<noteq> NL) (rev w) @ dropWhile (\<lambda>x. x \<noteq> NL) (rev w)"
    by (simp only: takeWhile_dropWhile_id)
  then have "rev (rev w) = rev (takeWhile (\<lambda>x. x \<noteq> NL) (rev w) @ dropWhile (\<lambda>x. x \<noteq> NL) (rev w))"
    by (rule arg_cong)
  then have "w = rev (dropWhile (\<lambda>x. x \<noteq> NL) (rev w)) @ afterLastNL w"
    by (simp only: rev_rev_ident rev_append afterLastNL_def)
  then show ?thesis by blast
qed

text \<open>The text after a match of the blank-line pattern is a suffix of the text.\<close>

lemma collapse_rest_suffix:
  "\<exists>p. cs = p @ afterLastNL (takeWhile is_space cs) @ dropWhile is_space cs"
proof -
  from afterLastNL_suffix [of "takeWhile is_space cs"] obtain p where
    p: "takeWhile is_space cs = p @ afterLastNL (takeWhile is_space cs)" by blast
  have "cs = takeWhile is_space cs @ dropWhile is_space cs"
    by (simp only: takeWhile_dropWhile_id)
  then have "cs = (p @ afterLastNL (takeWhile is_space cs)) @ dropWhile is_space cs"
    using p by (simp only:)
  then have "cs = p @ afterLastNL (takeWhile is_space cs) @ dropWhile is_space cs"
    by (simp only: append_assoc)
  then show ?thesis by blast
qed

lemma noLineTrail_collapseBlankLines:
  "noLineTrail s \<Longrightarrow> noLineTrail (collapseBlankLines s)"
proof (induction s rule: collapseBlankLines.induct)
  case 1
  then show ?case by simp
next
  case (2 c cs)
  let ?m = "c = NL \<and> NL \<in> set (takeWhile is_space cs)"
  from "2.prems" have h: "\<not> (is_blank c \<and> dropWhile is_blank cs \<noteq> []
      \<and> hd (dropWhile is_blank cs) = NL)" and n: "noLineTrail cs"
    unfolding noLineTrail_Cons by blast+
  show ?case
  proof (cases ?m)
    case True
    let ?t = "afterLastNL (takeWhile is_space cs) @ dropWhile is_space cs"
    from collapse_rest_suffix [of cs] obtain p where "cs = p @ ?t" by blast
    with n have "noLineTrail (p @ ?t)" by (simp only:)
    then have "noLineTrail ?t" by (rule noLineTrail_suffix)
    from "2.IH"(1) [OF True this] NL_not_blank show ?thesis
      unfolding collapseBlankLines_match [OF True] noLineTrail_Cons by blast
  next
    case False
    have "\<not> (is_blank c \<and> dropWhile is_blank (collapseBlankLines cs) \<noteq> []
        \<and> hd (dropWhile is_blank (collapseBlankLines cs)) = NL)"
    proof (cases "is_blank c")
      case True
      with h have "\<not> (dropWhile is_blank cs \<noteq> [] \<and> hd (dropWhile is_blank cs) = NL)"
        by blast
      from collapseBlankLines_head [OF this] show ?thesis by blast
    next
      case False
      then show ?thesis by blast
    qed
    with "2.IH"(2) [OF False n] show ?thesis
      unfolding collapseBlankLines_copy [OF False] noLineTrail_Cons by blast
  qed
qed

subsection \<open>Blank lines\<close>

lemma noBlankLine_fixed: "noBlankLine s \<Longrightarrow> collapseBlankLines s = s"
proof (induction s)
  case Nil
  then show ?case by simp
next
  case (Cons c cs)
  from Cons.prems have m: "\<not> (c = NL \<and> NL \<in> set (takeWhile is_space cs))"
    and n: "noBlankLine cs"
    unfolding noBlankLine_Cons by blast+
  from Cons.IH [OF n] show ?case
    unfolding collapseBlankLines_copy [OF m] by simp
qed

lemma lineFeedNext_Cons:
  "lineFeedNext (x # xs) = (if x = NL then True else if is_space x then lineFeedNext xs else False)"
  by (simp add: lineFeedNext_def)

lemma lineFeed_in_spaces: "NL \<in> set (takeWhile is_space xs) \<longleftrightarrow> lineFeedNext xs"
proof (induction xs)
  case Nil
  show ?case by (simp add: lineFeedNext_def)
next
  case (Cons x xs)
  show ?case
  proof (cases "x = NL")
    case True
    then show ?thesis by (simp add: lineFeedNext_Cons is_space_NL)
  next
    case False
    with Cons.IH show ?thesis by (simp add: lineFeedNext_Cons)
  qed
qed

lemma lineFeedNext_collapseBlankLines:
  "lineFeedNext (collapseBlankLines cs) = lineFeedNext cs"
proof (induction cs)
  case Nil
  show ?case by simp
next
  case (Cons x xs)
  show ?case
  proof (cases "x = NL")
    case True
    have "\<exists>r. collapseBlankLines (NL # xs) = NL # r"
    proof (cases "NL = NL \<and> NL \<in> set (takeWhile is_space xs)")
      case True
      from collapseBlankLines_match [OF this] show ?thesis by blast
    next
      case False
      from collapseBlankLines_copy [OF this] show ?thesis by blast
    qed
    then obtain r where "collapseBlankLines (NL # xs) = NL # r" by blast
    with True show ?thesis by (simp add: lineFeedNext_Cons)
  next
    case False
    then have "collapseBlankLines (x # xs) = x # collapseBlankLines xs"
      by (simp add: collapseBlankLines_copy)
    with False Cons.IH show ?thesis by (simp add: lineFeedNext_Cons)
  qed
qed

lemma afterLastNL_members:
  "x \<in> set (afterLastNL (takeWhile is_space cs)) \<Longrightarrow> is_space x \<and> x \<noteq> NL"
proof -
  assume a: "x \<in> set (afterLastNL (takeWhile is_space cs))"
  then have "x \<in> set (takeWhile (\<lambda>x. x \<noteq> NL) (rev (takeWhile is_space cs)))"
    by (simp add: afterLastNL_def)
  then have "x \<noteq> NL" and "x \<in> set (rev (takeWhile is_space cs))"
    by (auto dest: set_takeWhileD)
  then show ?thesis by (auto dest: set_takeWhileD)
qed

text \<open>After a match of the blank-line pattern no line feed comes next.\<close>

lemma collapse_rest_no_lineFeed:
  "\<not> lineFeedNext (afterLastNL (takeWhile is_space cs) @ dropWhile is_space cs)"
proof -
  let ?a = "afterLastNL (takeWhile is_space cs)"
  let ?p = "\<lambda>x. is_space x \<and> x \<noteq> NL"
  have d: "dropWhile ?p (?a @ dropWhile is_space cs) = dropWhile ?p (dropWhile is_space cs)"
  proof (rule dropWhile_append2)
    fix x
    assume "x \<in> set ?a"
    then show "?p x" by (rule afterLastNL_members)
  qed
  have l: "lineFeedNext (?a @ dropWhile is_space cs)
      = (case dropWhile ?p (dropWhile is_space cs) of [] \<Rightarrow> False | d # _ \<Rightarrow> d = NL)"
    unfolding lineFeedNext_def d ..
  show ?thesis
  proof (cases "dropWhile is_space cs")
    case Nil
    show ?thesis unfolding l unfolding Nil by simp
  next
    case (Cons y ys)
    from hd_dropWhile [of is_space cs] Cons have "\<not> is_space y" by simp
    then have "y \<noteq> NL" using is_space_NL by blast
    with \<open>\<not> is_space y\<close> show ?thesis unfolding l unfolding Cons by simp
  qed
qed

lemma noBlankLine_collapseBlankLines: "noBlankLine (collapseBlankLines s)"
proof (induction s rule: collapseBlankLines.induct)
  case 1
  show ?case by simp
next
  case (2 c cs)
  let ?m = "c = NL \<and> NL \<in> set (takeWhile is_space cs)"
  show ?case
  proof (cases ?m)
    case True
    let ?t = "afterLastNL (takeWhile is_space cs) @ dropWhile is_space cs"
    have "\<not> lineFeedNext (collapseBlankLines ?t)"
      unfolding lineFeedNext_collapseBlankLines by (rule collapse_rest_no_lineFeed)
    then have "NL \<notin> set (takeWhile is_space (collapseBlankLines ?t))"
      unfolding lineFeed_in_spaces .
    with "2.IH"(1) [OF True] show ?thesis
      unfolding collapseBlankLines_match [OF True] noBlankLine_Cons by blast
  next
    case False
    have "NL \<in> set (takeWhile is_space (collapseBlankLines cs))
        \<longleftrightarrow> NL \<in> set (takeWhile is_space cs)"
      unfolding lineFeed_in_spaces lineFeedNext_collapseBlankLines ..
    with False have "\<not> (c = NL \<and> NL \<in> set (takeWhile is_space (collapseBlankLines cs)))"
      by blast
    with "2.IH"(2) [OF False] show ?thesis
      unfolding collapseBlankLines_copy [OF False] noBlankLine_Cons by blast
  qed
qed

subsection \<open>The post-pass\<close>

lemma postPass_normal:
  "endsProperly (postPass s) \<and> noLineTrail (postPass s) \<and> noBlankLine (postPass s)"
  unfolding postPass_def
  by (intro conjI endsProperly_collapseBlankLines endsProperly_stripLineTrail
      endsProperly_trimEnd noLineTrail_collapseBlankLines noLineTrail_stripLineTrail
      noBlankLine_collapseBlankLines)

lemma postPass_fixed:
  assumes "endsProperly s" and "noLineTrail s" and "noBlankLine s"
  shows "postPass s = s"
  unfolding postPass_def
  by (simp only: trimEnd_fixed [OF assms(1)] noLineTrail_fixed [OF assms(2)]
      noBlankLine_fixed [OF assms(3)])

lemma postPass_idempotent: "postPass (postPass s) = postPass s"
  using postPass_normal [of s] by (blast intro: postPass_fixed)

subsection \<open>The post-pass deletes white space only\<close>

lemma visible_Nil [simp]: "visible [] = []"
  by (simp add: visible_def)

lemma visible_Cons: "visible (c # cs) = (if is_space c then visible cs else c # visible cs)"
  by (simp add: visible_def)

lemma visible_append: "visible (xs @ ys) = visible xs @ visible ys"
  by (simp add: visible_def)

lemma visible_rev: "visible (rev xs) = rev (visible xs)"
  by (simp add: visible_def rev_filter)

lemma visible_spaces: "(\<And>x. x \<in> set xs \<Longrightarrow> is_space x) \<Longrightarrow> visible xs = []"
  by (induction xs) (simp_all add: visible_Cons)

lemma visible_dropWhile: "visible (dropWhile is_space xs) = visible xs"
  by (induction xs) (simp_all add: visible_Cons)

lemma visible_blank_run: "visible (dropWhile is_blank xs) = visible xs"
  by (induction xs) (simp_all add: visible_Cons is_blank_space)

lemma visible_trimEnd: "visible (trimEnd s) = visible s"
  by (simp add: trimEnd_def visible_rev visible_dropWhile)

lemma visible_stripLineTrail: "visible (stripLineTrail s) = visible s"
proof (induction s rule: stripLineTrail.induct)
  case 1
  show ?case by simp
next
  case (2 c cs)
  let ?m = "is_blank c \<and> dropWhile is_blank cs \<noteq> [] \<and> hd (dropWhile is_blank cs) = NL"
  show ?case
  proof (cases ?m)
    case True
    let ?r = "tl (dropWhile is_blank cs)"
    from True have d: "NL # ?r = dropWhile is_blank cs"
      using hd_Cons_tl [of "dropWhile is_blank cs"] by metis
    have "visible (c # cs) = visible cs"
      using True by (simp add: visible_Cons is_blank_space)
    also have "\<dots> = visible (dropWhile is_blank cs)"
      by (simp only: visible_blank_run)
    also have "\<dots> = visible (NL # ?r)"
      by (simp only: d)
    also have "\<dots> = visible ?r"
      by (simp add: visible_Cons is_space_NL)
    finally have "visible (c # cs) = visible ?r" .
    moreover have "visible (NL # stripLineTrail ?r) = visible (stripLineTrail ?r)"
      by (simp add: visible_Cons is_space_NL)
    ultimately show ?thesis
      unfolding stripLineTrail_match [OF True] using "2.IH"(1) [OF True] by (simp only:)
  next
    case False
    from "2.IH"(2) [OF False] show ?thesis
      unfolding stripLineTrail_copy [OF False] by (simp add: visible_Cons)
  qed
qed

lemma visible_collapseBlankLines: "visible (collapseBlankLines s) = visible s"
proof (induction s rule: collapseBlankLines.induct)
  case 1
  show ?case by simp
next
  case (2 c cs)
  let ?m = "c = NL \<and> NL \<in> set (takeWhile is_space cs)"
  show ?case
  proof (cases ?m)
    case True
    let ?t = "afterLastNL (takeWhile is_space cs) @ dropWhile is_space cs"
    have "visible (afterLastNL (takeWhile is_space cs)) = []"
      by (rule visible_spaces) (use afterLastNL_members in blast)
    then have "visible ?t = visible cs"
      by (simp add: visible_append visible_dropWhile)
    moreover have "visible (c # cs) = visible cs"
      using True by (simp add: visible_Cons is_space_NL)
    moreover have "visible (NL # collapseBlankLines ?t) = visible (collapseBlankLines ?t)"
      by (simp add: visible_Cons is_space_NL)
    ultimately show ?thesis
      unfolding collapseBlankLines_match [OF True] using "2.IH"(1) [OF True] by (simp only:)
  next
    case False
    from "2.IH"(2) [OF False] show ?thesis
      unfolding collapseBlankLines_copy [OF False] by (simp add: visible_Cons)
  qed
qed

lemma visible_postPass: "visible (postPass s) = visible s"
  by (simp add: postPass_def visible_collapseBlankLines visible_stripLineTrail visible_trimEnd)

lemma mem_visible: "\<not> is_space c \<Longrightarrow> c \<in> set (visible s) \<longleftrightarrow> c \<in> set s"
  by (auto simp: visible_def)

lemma not_space_marks: "\<not> is_space SQ" "\<not> is_space HASH" "\<not> is_space DQ" "\<not> is_space BS"
  by (simp_all add: is_space_def)

lemma DQ_postPass: "DQ \<in> set (postPass s) \<longleftrightarrow> DQ \<in> set s"
  using mem_visible [OF not_space_marks(3), of "postPass s"] mem_visible [OF not_space_marks(3), of s]
  by (simp only: visible_postPass)

subsection \<open>The post-pass keeps the hashes inside single quotes\<close>

lemma endsBS_Cons: "endsBS p (c # cs) = endsBS (c = BS) cs"
  by (simp add: endsBS_def)

lemma quoteState_append:
  "quoteState b p (xs @ ys) = quoteState (quoteState b p xs) (endsBS p xs) ys"
proof (induction xs arbitrary: b p)
  case Nil
  show ?case by (simp add: endsBS_def)
next
  case (Cons x xs)
  show ?case by (simp add: Cons.IH endsBS_Cons)
qed

lemma hashesQuoted_append:
  "hashesQuoted b p (xs @ ys)
     \<longleftrightarrow> hashesQuoted b p xs \<and> hashesQuoted (quoteState b p xs) (endsBS p xs) ys"
proof (induction xs arbitrary: b p)
  case Nil
  show ?case by (simp add: endsBS_def)
next
  case (Cons x xs)
  show ?case by (simp add: Cons.IH endsBS_Cons)
qed

text \<open>White space is no hash, no single quote and no backslash.\<close>

lemma hashesQuoted_space:
  assumes "is_space c"
  shows "hashesQuoted b p (c # cs) = hashesQuoted b False cs"
proof -
  from assms not_space_marks have "c \<noteq> SQ" and "c \<noteq> HASH" and "c \<noteq> BS" by blast+
  then show ?thesis by simp
qed

lemma hashesQuoted_spaces:
  "(\<And>x. x \<in> set w \<Longrightarrow> is_space x) \<Longrightarrow> hashesQuoted b False (w @ r) = hashesQuoted b False r"
proof (induction w)
  case Nil
  show ?case by simp
next
  case (Cons x w)
  have "hashesQuoted b False (x # w @ r) = hashesQuoted b False (w @ r)"
    by (rule hashesQuoted_space) (simp add: Cons.prems)
  also have "\<dots> = hashesQuoted b False r"
    by (rule Cons.IH) (simp add: Cons.prems)
  finally show ?case by simp
qed

lemma hashesQuoted_only_spaces: "(\<And>x. x \<in> set w \<Longrightarrow> is_space x) \<Longrightarrow> hashesQuoted b p w"
proof (induction w arbitrary: p)
  case Nil
  show ?case by simp
next
  case (Cons x w)
  have "hashesQuoted b p (x # w) = hashesQuoted b False w"
    by (rule hashesQuoted_space) (simp add: Cons.prems)
  moreover have "hashesQuoted b False w"
    by (rule Cons.IH) (simp add: Cons.prems)
  ultimately show ?case by (simp only:)
qed

lemma hashesQuoted_trimEnd: "hashesQuoted b p (trimEnd s) = hashesQuoted b p s"
proof -
  let ?w = "rev (takeWhile is_space (rev s))"
  have "rev s = takeWhile is_space (rev s) @ dropWhile is_space (rev s)"
    by (simp only: takeWhile_dropWhile_id)
  then have "rev (rev s) = rev (takeWhile is_space (rev s) @ dropWhile is_space (rev s))"
    by (rule arg_cong)
  then have s: "s = trimEnd s @ ?w"
    by (simp only: rev_rev_ident rev_append trimEnd_def)
  have w: "hashesQuoted c q ?w" for c q
    by (rule hashesQuoted_only_spaces) (auto dest: set_takeWhileD)
  have "hashesQuoted b p (trimEnd s @ ?w) = hashesQuoted b p (trimEnd s)"
    unfolding hashesQuoted_append using w by blast
  with s show ?thesis by (simp only:)
qed

lemma hashesQuoted_stripLineTrail: "hashesQuoted b p (stripLineTrail s) = hashesQuoted b p s"
proof (induction s arbitrary: b p rule: stripLineTrail.induct)
  case 1
  show ?case by simp
next
  case (2 c cs)
  let ?m = "is_blank c \<and> dropWhile is_blank cs \<noteq> [] \<and> hd (dropWhile is_blank cs) = NL"
  show ?case
  proof (cases ?m)
    case True
    let ?r = "tl (dropWhile is_blank cs)"
    from True have cs: "cs = takeWhile is_blank cs @ NL # ?r"
      using blank_run_split by blast
    from True have "is_space c" using is_blank_space by blast
    then have "hashesQuoted b p (c # cs) = hashesQuoted b False cs"
      by (rule hashesQuoted_space)
    also have "\<dots> = hashesQuoted b False (takeWhile is_blank cs @ NL # ?r)"
      using cs by (simp only:)
    also have "\<dots> = hashesQuoted b False (NL # ?r)"
      by (rule hashesQuoted_spaces) (auto dest: set_takeWhileD intro: is_blank_space)
    also have "\<dots> = hashesQuoted b False ?r"
      using is_space_NL by (rule hashesQuoted_space)
    finally have l: "hashesQuoted b p (c # cs) = hashesQuoted b False ?r" .
    have "hashesQuoted b p (NL # stripLineTrail ?r) = hashesQuoted b False (stripLineTrail ?r)"
      using is_space_NL by (rule hashesQuoted_space)
    also have "\<dots> = hashesQuoted b False ?r"
      by (rule "2.IH"(1) [OF True])
    finally show ?thesis
      unfolding stripLineTrail_match [OF True] l .
  next
    case False
    show ?thesis
      unfolding stripLineTrail_copy [OF False] by (simp add: "2.IH"(2) [OF False])
  qed
qed

lemma hashesQuoted_collapseBlankLines:
  "hashesQuoted b p (collapseBlankLines s) = hashesQuoted b p s"
proof (induction s arbitrary: b p rule: collapseBlankLines.induct)
  case 1
  show ?case by simp
next
  case (2 c cs)
  let ?m = "c = NL \<and> NL \<in> set (takeWhile is_space cs)"
  show ?case
  proof (cases ?m)
    case True
    let ?a = "afterLastNL (takeWhile is_space cs)"
    let ?d = "dropWhile is_space cs"
    from True have c: "c = NL" by blast
    have "hashesQuoted b p (NL # cs) = hashesQuoted b False cs"
      using is_space_NL by (rule hashesQuoted_space)
    also have "\<dots> = hashesQuoted b False (takeWhile is_space cs @ ?d)"
      by (simp only: takeWhile_dropWhile_id)
    also have "\<dots> = hashesQuoted b False ?d"
      by (rule hashesQuoted_spaces) (auto dest: set_takeWhileD)
    finally have l: "hashesQuoted b p (NL # cs) = hashesQuoted b False ?d" .
    have "hashesQuoted b p (NL # collapseBlankLines (?a @ ?d))
        = hashesQuoted b False (collapseBlankLines (?a @ ?d))"
      using is_space_NL by (rule hashesQuoted_space)
    also have "\<dots> = hashesQuoted b False (?a @ ?d)"
      by (rule "2.IH"(1) [OF True])
    also have "\<dots> = hashesQuoted b False ?d"
      by (rule hashesQuoted_spaces) (use afterLastNL_members in blast)
    finally show ?thesis
      unfolding collapseBlankLines_match [OF True] unfolding c l .
  next
    case False
    show ?thesis
      unfolding collapseBlankLines_copy [OF False] by (simp add: "2.IH"(2) [OF False])
  qed
qed

lemma hashesQuoted_postPass: "hashesQuoted b p (postPass s) = hashesQuoted b p s"
  unfolding postPass_def
  by (simp only: hashesQuoted_collapseBlankLines hashesQuoted_stripLineTrail hashesQuoted_trimEnd)

section \<open>The scan loop on texts without double quotes\<close>

lemma scan_end: "\<not> i < length code \<Longrightarrow> scan code i inS inD res = res"
  by (subst scan.simps) simp

text \<open>The three steps the loop can take on such a text.\<close>

lemma scan_single_quote:
  assumes "i < length code" and "code ! i = SQ"
  shows "scan code i inS False res
    = scan code (i + 1) (if 0 < i \<and> code ! (i - 1) = BS then inS else \<not> inS) False (res @ [SQ])"
  using assms by (subst scan.simps) simp

lemma scan_copy:
  assumes "DQ \<notin> set code" and "i < length code" and "code ! i \<noteq> SQ"
    and "inS \<or> code ! i \<noteq> HASH"
  shows "scan code i inS False res = scan code (i + 1) inS False (res @ [code ! i])"
proof -
  have "code ! i \<noteq> DQ"
    using assms(1,2) by (metis nth_mem)
  then show ?thesis
    using assms(2,3,4) by (subst scan.simps) auto
qed

lemma skipToNewline_stop:
  "skipToNewline code i < length code \<Longrightarrow> code ! (skipToNewline code i) = NL"
proof (induction code i rule: skipToNewline.induct)
  case (1 code i)
  show ?case
  proof (cases "i < length code \<and> code ! i \<noteq> NL")
    case True
    then have e: "skipToNewline code i = skipToNewline code (Suc i)"
      by (subst skipToNewline.simps) simp
    from "1.IH" [OF True] "1.prems" show ?thesis unfolding e .
  next
    case False
    have e: "skipToNewline code i = i"
      by (subst skipToNewline.simps) (simp only: False if_False)
    from False "1.prems" show ?thesis unfolding e by blast
  qed
qed

lemma skipIndent_prev: "k < skipIndent code k \<Longrightarrow> is_space (code ! (skipIndent code k - 1))"
proof (induction code k rule: skipIndent.induct)
  case (1 code k)
  show ?case
  proof (cases "k < length code \<and> (code ! k = SP \<or> code ! k = TAB)")
    case True
    then have e: "skipIndent code k = skipIndent code (Suc k)"
      by (subst skipIndent.simps) simp
    show ?thesis
    proof (cases "Suc k < skipIndent code (Suc k)")
      case further: True
      from "1.IH" [OF True further] show ?thesis unfolding e .
    next
      case False
      with skipIndent_ge [of "Suc k" code] have "skipIndent code (Suc k) = Suc k" by simp
      with True show ?thesis unfolding e by (auto simp: is_space_def)
    qed
  next
    case False
    have "skipIndent code k = k"
      by (subst skipIndent.simps) (simp only: False if_False)
    with "1.prems" show ?thesis by simp
  qed
qed

lemma prevNewlinePos_less: "prevNewlinePos code i = Some p \<Longrightarrow> p < i"
  by (induction i) (auto split: if_splits)

lemma trim_Nil_spaces:
  assumes "trim x = []"
  shows "\<forall>c\<in>set x. is_space c"
proof -
  from assms have "dropWhile is_space (rev (dropWhile is_space x)) = []"
    by (simp add: trim_def trimEnd_def trimStart_def)
  then have "\<forall>c\<in>set (rev (dropWhile is_space x)). is_space c"
    by (simp only: dropWhile_eq_Nil_conv)
  then have a: "\<forall>c\<in>set (dropWhile is_space x). is_space c" by simp
  have "dropWhile is_space x = []"
  proof (rule ccontr)
    assume n: "dropWhile is_space x \<noteq> []"
    then have "hd (dropWhile is_space x) \<in> set (dropWhile is_space x)" by (rule hd_in_set)
    with a hd_dropWhile [OF n] show False by blast
  qed
  then show ?thesis by (simp only: dropWhile_eq_Nil_conv)
qed

text \<open>A marker at a line start, other than the start of the text, stands after white space.\<close>

lemma atLineStart_prev:
  assumes "atLineStart code i" and "0 < i" and "i \<le> length code"
  shows "is_space (code ! (i - 1))"
proof (cases "code ! (i - 1) = NL")
  case True
  then show ?thesis by (simp add: is_space_NL)
next
  case False
  with assms(1,2) obtain p where p: "prevNewlinePos code i = Some p"
    and t: "trim (substring code (p + 1) i) = []"
    by (auto simp: atLineStart_def split: option.splits)
  from assms(2) obtain k where i: "i = Suc k" by (cases i) simp_all
  from p False have "prevNewlinePos code k = Some p"
    unfolding i by simp
  then have pk: "p < k" by (rule prevNewlinePos_less)
  have "substring code (p + 1) i ! (k - (p + 1)) = code ! k"
    using pk assms(3) unfolding i by (simp add: substring_def)
  moreover have "k - (p + 1) < length (substring code (p + 1) i)"
    using pk assms(3) unfolding i by (simp add: substring_def)
  ultimately have "code ! k \<in> set (substring code (p + 1) i)"
    by (metis nth_mem)
  with trim_Nil_spaces [OF t] show ?thesis unfolding i by simp
qed

text \<open>
  A hash outside the quotes: the loop ends, or goes on after the line feed of the comment
  with a line feed in the output, or goes on after white space with the output as it was;
  the last only for a comment at a line start.
\<close>

lemma scan_comment:
  assumes "i < length code" and "code ! i = HASH"
  shows "scan code i False False res = res
    \<or> (\<exists>j. i < j \<and> code ! (j - 1) = NL
          \<and> scan code i False False res = scan code j False False (res @ [NL]))
    \<or> (\<exists>j. i < j \<and> is_space (code ! (j - 1)) \<and> atLineStart code i
          \<and> scan code i False False res = scan code j False False res)"
proof -
  let ?n = "skipToNewline code i"
  have gt: "i < ?n"
    using skipToNewline_gt [OF assms(1)] assms(2) by simp
  have gt': "i < skipIndent code (?n + 1)"
    by (rule skipIndent_skipToNewline_gt)
  have e: "scan code i False False res =
      (if atLineStart code i
       then (if ?n < length code \<and> code ! ?n = NL
             then scan code (skipIndent code (?n + 1)) False False res
             else scan code ?n False False res)
       else (if ?n < length code \<and> code ! ?n = NL
             then scan code (?n + 1) False False (res @ [NL])
             else scan code ?n False False res))"
    using assms by (subst scan.simps) simp
  show ?thesis
  proof (cases "?n < length code \<and> code ! ?n = NL")
    case nl: True
    show ?thesis
    proof (cases "atLineStart code i")
      case True
      with nl e have s: "scan code i False False res
          = scan code (skipIndent code (?n + 1)) False False res" by simp
      have "is_space (code ! (skipIndent code (?n + 1) - 1))"
      proof (cases "?n + 1 < skipIndent code (?n + 1)")
        case True
        then show ?thesis by (rule skipIndent_prev)
      next
        case False
        with skipIndent_ge [of "?n + 1" code] have "skipIndent code (?n + 1) = ?n + 1" by simp
        with nl show ?thesis by (simp add: is_space_NL)
      qed
      with gt' True s show ?thesis by blast
    next
      case False
      with nl e have "scan code i False False res = scan code (?n + 1) False False (res @ [NL])"
        by simp
      moreover from gt have "i < ?n + 1" by simp
      moreover from nl have "code ! (?n + 1 - 1) = NL" by simp
      ultimately show ?thesis by blast
    qed
  next
    case False
    have s: "scan code i False False res = scan code ?n False False res"
      unfolding e by (simp only: False if_False if_cancel)
    from False skipToNewline_stop [of code i] have "\<not> ?n < length code" by blast
    then have "scan code ?n False False res = res" by (rule scan_end)
    with s show ?thesis by simp
  qed
qed

text \<open>What the loop needs of the ends of the two texts.\<close>

lemma joined_copy: "joined code (i + 1) (res @ [code ! i])"
  by (simp add: joined_def)

lemma joined_endsBS:
  assumes "joined code i res"
  shows "endsBS False res \<longleftrightarrow> 0 < i \<and> code ! (i - 1) = BS"
  using assms not_space_marks(4) unfolding joined_def endsBS_def by auto

lemma joined_line_start:
  assumes "joined code i res" and "atLineStart code i" and "i \<le> length code"
    and "i < j" and "is_space (code ! (j - 1))"
  shows "joined code j res"
proof -
  have "res = [] \<or> is_space (last res)"
  proof (cases "0 < i")
    case True
    from atLineStart_prev [OF assms(2) True assms(3)] assms(1) show ?thesis
      unfolding joined_def by auto
  next
    case False
    with assms(1) show ?thesis unfolding joined_def by auto
  qed
  with assms(4,5) show ?thesis unfolding joined_def by auto
qed

text \<open>
  When every hash of the rest of the text lies inside single quotes, the loop copies the
  rest.
\<close>

lemma scan_quoted_identity:
  assumes "DQ \<notin> set code"
  shows "hashesQuoted inS (0 < i \<and> code ! (i - 1) = BS) (drop i code)
    \<Longrightarrow> scan code i inS False res = res @ drop i code"
proof (induction "length code - i" arbitrary: i inS res)
  case 0
  then show ?case by (simp add: scan_end)
next
  case (Suc n)
  from Suc.hyps(2) have i: "i < length code" by simp
  then have d: "drop i code = code ! i # drop (i + 1) code"
    by (simp add: Cons_nth_drop_Suc)
  from Suc.hyps(2) have n: "n = length code - (i + 1)" by simp
  let ?p = "0 < i \<and> code ! (i - 1) = BS"
  show ?case
  proof (cases "code ! i = SQ")
    case True
    let ?s = "if ?p then inS else \<not> inS"
    define p where "p \<longleftrightarrow> ?p"
    from Suc.prems have "hashesQuoted inS p (SQ # drop (i + 1) code)"
      unfolding d True p_def .
    then have "hashesQuoted (if p then inS else \<not> inS) False (drop (i + 1) code)"
      by (cases p) simp_all
    then have "hashesQuoted ?s (0 < i + 1 \<and> code ! (i + 1 - 1) = BS) (drop (i + 1) code)"
      unfolding p_def using True by simp
    from Suc.hyps(1) [OF n this]
    have "scan code (i + 1) ?s False (res @ [SQ]) = (res @ [SQ]) @ drop (i + 1) code" .
    with True d show ?thesis
      unfolding scan_single_quote [OF i True] by simp
  next
    case False
    from Suc.prems have hq: "hashesQuoted inS ?p (code ! i # drop (i + 1) code)"
      unfolding d .
    with False have q: "inS \<or> code ! i \<noteq> HASH"
      and h: "hashesQuoted inS (0 < i + 1 \<and> code ! (i + 1 - 1) = BS) (drop (i + 1) code)"
      by (auto split: if_splits)
    from Suc.hyps(1) [OF n h]
    have "scan code (i + 1) inS False (res @ [code ! i])
        = (res @ [code ! i]) @ drop (i + 1) code" .
    with d show ?thesis
      unfolding scan_copy [OF assms i False q] by simp
  qed
qed

text \<open>
  The loop keeps the output free of double quotes, with every hash inside single quotes,
  as long as its flag is the single-quote state of the output so far and the output ends
  as the text read so far does.
\<close>

lemma scan_invariant:
  assumes "DQ \<notin> set code"
  shows "hashesQuoted False False res \<Longrightarrow> quoteState False False res = inS
    \<Longrightarrow> DQ \<notin> set res \<Longrightarrow> joined code i res
    \<Longrightarrow> hashesQuoted False False (scan code i inS False res)
      \<and> DQ \<notin> set (scan code i inS False res)"
proof (induction "length code - i" arbitrary: i inS res rule: less_induct)
  case less
  show ?case
  proof (cases "i < length code")
    case False
    with less.prems show ?thesis by (simp add: scan_end)
  next
    case i: True
    then have m: "code ! i \<in> set code" by simp
    with assms have c: "code ! i \<noteq> DQ" by auto
    from i have l: "length code - (i + 1) < length code - i" by simp
    note e = joined_endsBS [OF less.prems(4)]
    show ?thesis
    proof (cases "code ! i = SQ")
      case True
      let ?s = "if 0 < i \<and> code ! (i - 1) = BS then inS else \<not> inS"
      have 1: "hashesQuoted False False (res @ [SQ])"
        using less.prems(1) by (simp add: hashesQuoted_append)
      have 2: "quoteState False False (res @ [SQ]) = ?s"
        using less.prems(2) e by (simp add: quoteState_append)
      have 3: "DQ \<notin> set (res @ [SQ])"
        using less.prems(3) by simp
      have 4: "joined code (i + 1) (res @ [SQ])"
        using joined_copy [of code i res] unfolding True .
      from less.hyps [OF l 1 2 3 4] show ?thesis
        unfolding scan_single_quote [OF i True] .
    next
      case nq: False
      show ?thesis
      proof (cases "inS \<or> code ! i \<noteq> HASH")
        case True
        have 1: "hashesQuoted False False (res @ [code ! i])"
          using less.prems(1,2) True by (auto simp: hashesQuoted_append)
        have 2: "quoteState False False (res @ [code ! i]) = inS"
          using less.prems(2) nq by (simp add: quoteState_append)
        have 3: "DQ \<notin> set (res @ [code ! i])"
          using less.prems(3) c by simp
        from less.hyps [OF l 1 2 3 joined_copy] show ?thesis
          unfolding scan_copy [OF assms i nq True] .
      next
        case False
        then have s: "inS = False" and h: "code ! i = HASH" by simp_all
        have 1: "hashesQuoted False False (res @ [NL])"
          using less.prems(1) by (simp add: hashesQuoted_append)
        have 2: "quoteState False False (res @ [NL]) = False"
          using less.prems(2) s by (simp add: quoteState_append)
        have 3: "DQ \<notin> set (res @ [NL])"
          using less.prems(3) by simp
        from scan_comment [OF i h, of res] show ?thesis
        proof (elim disjE exE conjE)
          assume "scan code i False False res = res"
          with less.prems(1,3) show ?thesis unfolding s by simp
        next
          fix j
          assume j: "i < j" and n: "code ! (j - 1) = NL"
            and sc: "scan code i False False res = scan code j False False (res @ [NL])"
          from i j have lj: "length code - j < length code - i" by simp
          from j n have 4: "joined code j (res @ [NL])" by (simp add: joined_def)
          from less.hyps [OF lj 1 2 3 4] show ?thesis unfolding s sc .
        next
          fix j
          assume j: "i < j" and sp: "is_space (code ! (j - 1))" and ls: "atLineStart code i"
            and sc: "scan code i False False res = scan code j False False res"
          from i j have lj: "length code - j < length code - i" by simp
          from i have "i \<le> length code" by simp
          from joined_line_start [OF less.prems(4) ls this j sp] have 4: "joined code j res" .
          from less.prems(2) have "quoteState False False res = False" unfolding s .
          from less.hyps [OF lj less.prems(1) this less.prems(3) 4] show ?thesis unfolding s sc .
        qed
      qed
    qed
  qed
qed

section \<open>Idempotence of the stripper\<close>

lemma removeCommentsFromD2_postPass:
  "removeCommentsFromD2 code = postPass (scan code 0 False False [])"
  by (simp add: removeCommentsFromD2_def postPass_def)

text \<open>
  C7, as amended. On every text without double quotes, stripping the comments of the
  stripped text returns the stripped text unchanged.
\<close>

theorem C7_idempotent_without_double_quotes:
  assumes "DQ \<notin> set s"
  shows "removeCommentsFromD2 (removeCommentsFromD2 s) = removeCommentsFromD2 s"
proof -
  let ?r = "scan s 0 False False []"
  let ?o = "postPass ?r"
  have "joined s 0 []" by (simp add: joined_def)
  with assms have r: "hashesQuoted False False ?r \<and> DQ \<notin> set ?r"
    by (intro scan_invariant) simp_all
  then have o: "hashesQuoted False False ?o" "DQ \<notin> set ?o"
    by (simp_all add: hashesQuoted_postPass DQ_postPass)
  from o(1) have "hashesQuoted False (0 < (0::nat) \<and> ?o ! (0 - 1) = BS) (drop 0 ?o)" by simp
  from scan_quoted_identity [OF o(2) this, of "[]"]
  have "scan ?o 0 False False [] = ?o" by simp
  then have "removeCommentsFromD2 ?o = postPass ?o"
    by (simp only: removeCommentsFromD2_postPass)
  also have "\<dots> = ?o" by (rule postPass_idempotent)
  finally show ?thesis by (simp only: removeCommentsFromD2_postPass)
qed

text \<open>
  C7 at the text \<^verbatim>\<open>a # c\ny: 'it\'s # q' # d\n\n  b \  \<close>, whose comments the first pass
  removes; the hash after the escaped quote stays, inside the single quotes.
\<close>

theorem C7_witness:
  "removeCommentsFromD2 (''a # c'' @ [NL] @ ''y: '' @ [SQ] @ ''it'' @ [BS, SQ] @ ''s # q'' @ [SQ]
        @ '' # d'' @ [NL, NL] @ ''  b '' @ [BS] @ ''  '')
     = ''a'' @ [NL] @ ''y: '' @ [SQ] @ ''it'' @ [BS, SQ] @ ''s # q'' @ [SQ, NL] @ ''  b '' @ [BS]
   \<and> removeCommentsFromD2 (removeCommentsFromD2
        (''a # c'' @ [NL] @ ''y: '' @ [SQ] @ ''it'' @ [BS, SQ] @ ''s # q'' @ [SQ]
          @ '' # d'' @ [NL, NL] @ ''  b '' @ [BS] @ ''  ''))
     = removeCommentsFromD2 (''a # c'' @ [NL] @ ''y: '' @ [SQ] @ ''it'' @ [BS, SQ] @ ''s # q'' @ [SQ]
          @ '' # d'' @ [NL, NL] @ ''  b '' @ [BS] @ ''  '')"
proof -
  let ?w = "''a # c'' @ [NL] @ ''y: '' @ [SQ] @ ''it'' @ [BS, SQ] @ ''s # q'' @ [SQ]
      @ '' # d'' @ [NL, NL] @ ''  b '' @ [BS] @ ''  ''"
  have d: "DQ \<notin> set ?w" by simp
  have v: "removeCommentsFromD2 ?w
      = ''a'' @ [NL] @ ''y: '' @ [SQ] @ ''it'' @ [BS, SQ] @ ''s # q'' @ [SQ, NL] @ ''  b '' @ [BS]"
    by code_simp
  from v C7_idempotent_without_double_quotes [OF d] show ?thesis by (intro conjI)
qed

text \<open>
  C7, as stated: on the text \<^verbatim>\<open>\"""c"""'#\<close> the first pass removes the block comment and
  returns \<^verbatim>\<open>\'#\<close>, where the backslash now stands before the single quote; the second pass
  takes the quote as escaped and the hash as a comment, and returns \<^verbatim>\<open>\'\<close>.
\<close>

theorem C7_counterexample:
  "removeCommentsFromD2 ([BS, DQ, DQ, DQ] @ ''c'' @ [DQ, DQ, DQ, SQ, HASH]) = [BS, SQ, HASH]
   \<and> removeCommentsFromD2 [BS, SQ, HASH] = [BS, SQ]
   \<and> removeCommentsFromD2 (removeCommentsFromD2 ([BS, DQ, DQ, DQ] @ ''c'' @ [DQ, DQ, DQ, SQ, HASH]))
       \<noteq> removeCommentsFromD2 ([BS, DQ, DQ, DQ] @ ''c'' @ [DQ, DQ, DQ, SQ, HASH])"
  by code_simp

end
